theory Spec2Isabelle
  imports Complex_Main "HOL-Library.AList" "HOL-Library.Multiset"
begin

section \<open>Data model of \<^verbatim>\<open>tree_structure.py\<close>\<close>

text \<open>
  The module is Python 2 with numpy. Conventions of the embedding:
  \<^item> an exception is a value \<open>Inl e\<close> of \<open>error + 'a\<close>; the state an operation leaves
    behind when it raises is not modelled;
  \<^item> a \<^verbatim>\<open>while\<close> loop with no evident bound is a \<^theory_text>\<open>partial_function (option)\<close>;
    \<open>None\<close> means that the loop does not return;
  \<^item> floating-point numbers are exact rationals, \<^verbatim>\<open>np.inf\<close> is the constructor
    \<open>Infinity\<close> of \<open>link\<close>;
  \<^item> \<^verbatim>\<open>node_dict\<close> has the keys \<^verbatim>\<open>str(i)\<close> of integers \<open>i\<close>; the model keeps the integer
    and holds the dictionary as an association list with distinct keys, whose order is
    the iteration order of \<^verbatim>\<open>keys()\<close>;
  \<^item> what a \<^verbatim>\<open>print\<close> statement writes is returned as a list of \<open>msg\<close>;
  \<^item> \<^verbatim>\<open>kernel_CDF\<close> is only handed through to \<^verbatim>\<open>fitting_tools\<close>, which is not part of
    the module: the four functions used from it are the fields of a \<open>collab\<close> record
    taken as a parameter, already applied to \<^verbatim>\<open>kernel_CDF\<close>.
\<close>

datatype error = KeyError | ValueError | IndexError | TypeError

datatype msg = NotANode int | IsALeaf int | SiblingsRemoved nat

datatype link = Finite rat | Infinity

datatype ndarray = NDArray (shape: "nat list") (flat: "rat list")

definition ndim :: "ndarray \<Rightarrow> nat" where
  "ndim a = length (shape a)"

type_synonym rules_t = "(nat \<times> rat \<times> rat) list"

record node =
  left :: "int option"
  right :: "int option"
  parent :: "int option"
  rules :: rules_t
  dat :: ndarray
  labels :: "rat list"
  is_stopped :: bool
  reach_prob :: rat
  class_prob :: "rat list"

type_synonym node_dict_t = "(int \<times> node) list"

record tree =
  node_dict :: node_dict_t
  leaf_inds :: "int list"
  symbols :: "rat list"

record collab =
  split_features :: "node \<Rightarrow> rat list \<times> rat list"
  compute_probs_KDE :: "node \<Rightarrow> rat list \<Rightarrow> rat \<Rightarrow> nat \<Rightarrow> rat list \<times> rat list \<times> rat \<times> rat"
  update_rules :: "rat \<Rightarrow> nat \<Rightarrow> node \<Rightarrow> rules_t \<times> rules_t"
  filter_data :: "ndarray \<Rightarrow> rat list \<Rightarrow> rules_t \<Rightarrow> nat \<Rightarrow> ndarray \<times> rat list"

subsection \<open>Builtins\<close>

text \<open>\<^verbatim>\<open>min\<close> and \<^verbatim>\<open>max\<close> of a non-empty sequence.\<close>

definition list_min :: "rat list \<Rightarrow> rat" where
  "list_min xs = fold min (tl xs) (hd xs)"

definition list_max :: "rat list \<Rightarrow> rat" where
  "list_max xs = fold max (tl xs) (hd xs)"

text \<open>\<^verbatim>\<open>np.argmin\<close>: the first index of a least element, for an order given by \<open>lt\<close>.\<close>

fun argmin_by :: "('a \<Rightarrow> 'a \<Rightarrow> bool) \<Rightarrow> 'a list \<Rightarrow> nat" where
  "argmin_by lt [] = 0"
| "argmin_by lt [x] = 0"
| "argmin_by lt (x # y # ys) =
     (let j = argmin_by lt (y # ys) in if lt ((y # ys) ! j) x then Suc j else 0)"

fun link_less :: "link \<Rightarrow> link \<Rightarrow> bool" where
  "link_less (Finite a) (Finite b) = (a < b)"
| "link_less (Finite a) Infinity = True"
| "link_less Infinity b = False"

text \<open>\<^verbatim>\<open>np.unique\<close>: the sorted distinct values.\<close>

definition np_unique :: "rat list \<Rightarrow> rat list" where
  "np_unique xs = sort (remdups xs)"

text \<open>Truth value of \<^verbatim>\<open>node.left\<close> in \<^verbatim>\<open>if node.left:\<close> (\<^verbatim>\<open>None\<close> and \<^verbatim>\<open>0\<close> are false).\<close>

fun truthy :: "int option \<Rightarrow> bool" where
  "truthy None = False"
| "truthy (Some k) = (k \<noteq> 0)"

text \<open>\<^verbatim>\<open>self.node_dict[str(k)]\<close> for a key that may be \<^verbatim>\<open>None\<close>.\<close>

fun lookup :: "node_dict_t \<Rightarrow> int option \<Rightarrow> error + node" where
  "lookup nd None = Inl KeyError"
| "lookup nd (Some k) = (case map_of nd k of None \<Rightarrow> Inl KeyError | Some n \<Rightarrow> Inr n)"

definition keys :: "node_dict_t \<Rightarrow> int list" where
  "keys nd = map fst nd"

subsection \<open>Node\<close>

definition Node :: "ndarray \<Rightarrow> rat list \<Rightarrow> bool \<Rightarrow> rat \<Rightarrow> rat list \<Rightarrow> rules_t \<Rightarrow> int option \<Rightarrow> node" where
  "Node d ls stopped rp cp rs par =
     \<lparr>left = None, right = None, parent = par, rules = rs, dat = d, labels = ls,
      is_stopped = stopped, reach_prob = rp, class_prob = cp\<rparr>"

text \<open>\<^verbatim>\<open>1 - max(self.class_prob)\<close>; \<^verbatim>\<open>max\<close> of an empty sequence raises \<^verbatim>\<open>ValueError\<close>.\<close>

definition compute_error_rate :: "node \<Rightarrow> error + rat" where
  "compute_error_rate n =
     (if class_prob n = [] then Inl ValueError else Inr (1 - list_max (class_prob n)))"

subsection \<open>Tree construction\<close>

text \<open>
  The rules of the root. A minimum over an axis of length zero raises \<^verbatim>\<open>ValueError\<close>
  in numpy; any \<^verbatim>\<open>ndim\<close> other than 1 and 2 reaches the \<^verbatim>\<open>raise\<close> of the source.
\<close>

definition mat_rows :: "ndarray \<Rightarrow> rat list list" where
  "mat_rows d = map (\<lambda>i. take (shape d ! 1) (drop (i * (shape d ! 1)) (flat d))) [0..<shape d ! 0]"

definition root_rules :: "ndarray \<Rightarrow> error + rules_t" where
  "root_rules d =
     (if ndim d = 1 then
        (if flat d = [] then Inl ValueError
         else Inr [(0, (list_min (flat d), list_max (flat d)))])
      else if ndim d = 2 then
        (if shape d ! 1 = 0 then Inl ValueError
         else Inr (fold (\<lambda>i r. AList.update i (list_min (mat_rows d ! i), list_max (mat_rows d ! i)) r)
                     [0..<length (mat_rows d)] []))
      else Inl ValueError)"

definition class_priors :: "rat list \<Rightarrow> rat list \<Rightarrow> rat list" where
  "class_priors syms ls = map (\<lambda>s. of_nat (count_list ls s) / of_nat (length ls)) syms"

definition Tree_init :: "ndarray \<Rightarrow> rat list \<Rightarrow> error + tree" where
  "Tree_init d ls =
     (let syms = np_unique ls;
          stopped = (length syms = 1);
          priors = class_priors syms ls
      in case root_rules d of
           Inl e \<Rightarrow> Inl e
         | Inr rs \<Rightarrow>
             Inr \<lparr>node_dict = [(0, Node d ls stopped 1 priors rs None)],
                  leaf_inds = [0], symbols = syms\<rparr>)"

subsection \<open>Growth\<close>

fun check_leaves :: "node_dict_t \<Rightarrow> int list \<Rightarrow> error + bool" where
  "check_leaves nd [] = Inr True"
| "check_leaves nd (i # is) =
     (case lookup nd (Some i) of
        Inl e \<Rightarrow> Inl e
      | Inr leaf \<Rightarrow> if \<not> is_stopped leaf then Inr False else check_leaves nd is)"

definition check_full_stopped :: "tree \<Rightarrow> error + bool" where
  "check_full_stopped t = check_leaves (node_dict t) (leaf_inds t)"

text \<open>
  Lines 119 to 146: the two children of an unstopped leaf \<open>i\<close>, as the collaborator
  determines them. \<^verbatim>\<open>np.argmin\<close> of an empty array raises \<^verbatim>\<open>ValueError\<close>, and
  \<^verbatim>\<open>thetas[selected_feature]\<close> raises \<^verbatim>\<open>IndexError\<close> when \<^verbatim>\<open>thetas\<close> is too short.
\<close>

definition new_children :: "collab \<Rightarrow> rat list \<Rightarrow> int \<Rightarrow> node \<Rightarrow> error + node \<times> node" where
  "new_children sp syms i leaf =
     (case split_features sp leaf of (thetas, scores) \<Rightarrow>
        if scores = [] then Inl ValueError
        else let selected_feature = argmin_by (<) scores in
          if length thetas \<le> selected_feature then Inl IndexError
          else let best_split = thetas ! selected_feature in
            (case compute_probs_KDE sp leaf syms best_split selected_feature of
               (left_priors, right_priors, p_left, p_right) \<Rightarrow>
            (case update_rules sp best_split selected_feature leaf of
               (left_rules, right_rules) \<Rightarrow>
            (case filter_data sp (dat leaf) (labels leaf) left_rules selected_feature of
               (left_dat, left_labels) \<Rightarrow>
            (case filter_data sp (dat leaf) (labels leaf) right_rules selected_feature of
               (right_dat, right_labels) \<Rightarrow>
               Inr (Node left_dat left_labels (length (np_unique left_labels) = 1)
                      (p_left * reach_prob leaf) left_priors left_rules (Some i),
                    Node right_dat right_labels (length (np_unique right_labels) = 1)
                      (p_right * reach_prob leaf) right_priors right_rules (Some i)))))))"

text \<open>
  The body of the \<^verbatim>\<open>for\<close> loop of a pass, over the state \<open>(node_dict, max_key,
  inds_to_remove, inds_to_add)\<close>. The leaf object is fetched before the dictionary is
  updated and its child fields are written afterwards; writing the fields first and
  updating the dictionary second gives the same dictionary in every case.
\<close>

definition set_children :: "int \<Rightarrow> int \<Rightarrow> node \<Rightarrow> node" where
  "set_children l r n = n\<lparr>left := Some l, right := Some r\<rparr>"

type_synonym pass_state = "node_dict_t \<times> int \<times> int list \<times> int list"

definition split_leaf :: "collab \<Rightarrow> rat list \<Rightarrow> int \<Rightarrow> pass_state \<Rightarrow> error + pass_state" where
  "split_leaf sp syms i s =
     (case s of (nd, max_key, inds_to_remove, inds_to_add) \<Rightarrow>
        (case lookup nd (Some i) of
           Inl e \<Rightarrow> Inl e
         | Inr leaf \<Rightarrow>
             if is_stopped leaf then Inr s
             else (case new_children sp syms i leaf of
                     Inl e \<Rightarrow> Inl e
                   | Inr (left_child, right_child) \<Rightarrow>
                       Inr (AList.update (max_key + 2) right_child
                              (AList.update (max_key + 1) left_child
                                 (AList.map_entry i (set_children (max_key + 1) (max_key + 2)) nd)),
                            max_key + 2,
                            inds_to_remove @ [i],
                            inds_to_add @ [max_key + 1, max_key + 2]))))"

text \<open>The \<^verbatim>\<open>for\<close> loop over \<^verbatim>\<open>self.leaf_inds\<close>.\<close>

fun split_leaves :: "collab \<Rightarrow> rat list \<Rightarrow> int list \<Rightarrow> pass_state \<Rightarrow> error + pass_state" where
  "split_leaves sp syms [] s = Inr s"
| "split_leaves sp syms (i # is) s =
     (case split_leaf sp syms i s of
        Inl e \<Rightarrow> Inl e
      | Inr s' \<Rightarrow> split_leaves sp syms is s')"

text \<open>\<^verbatim>\<open>for j in inds_to_remove: self.leaf_inds.remove(j)\<close>\<close>

fun remove_each :: "int list \<Rightarrow> int list \<Rightarrow> error + int list" where
  "remove_each [] xs = Inr xs"
| "remove_each (j # js) xs =
     (if j \<in> set xs then remove_each js (remove1 j xs) else Inl ValueError)"

definition fit_pass :: "collab \<Rightarrow> int \<Rightarrow> tree \<Rightarrow> error + int \<times> tree" where
  "fit_pass sp max_key t =
     (case split_leaves sp (symbols t) (leaf_inds t) (node_dict t, max_key, [], []) of
        Inl e \<Rightarrow> Inl e
      | Inr (nd, max_key', inds_to_remove, inds_to_add) \<Rightarrow>
          (case remove_each inds_to_remove (leaf_inds t) of
             Inl e \<Rightarrow> Inl e
           | Inr ls \<Rightarrow> Inr (max_key', t\<lparr>node_dict := nd, leaf_inds := ls @ inds_to_add\<rparr>)))"

partial_function (option) fit_loop :: "collab \<Rightarrow> int \<Rightarrow> tree \<Rightarrow> (error + tree) option" where
  "fit_loop sp max_key t =
     (case check_full_stopped t of
        Inl e \<Rightarrow> Some (Inl e)
      | Inr stopped \<Rightarrow>
          if stopped then Some (Inr t)
          else (case fit_pass sp max_key t of
                  Inl e \<Rightarrow> Some (Inl e)
                | Inr (max_key', t') \<Rightarrow> fit_loop sp max_key' t'))"

text \<open>\<^verbatim>\<open>max\<close> of the keys of an empty dictionary raises \<^verbatim>\<open>ValueError\<close>.\<close>

definition fit_full_tree :: "collab \<Rightarrow> tree \<Rightarrow> (error + tree) option" where
  "fit_full_tree sp t =
     (if node_dict t = [] then Some (Inl ValueError)
      else fit_loop sp (Max (set (keys (node_dict t)))) t)"

subsection \<open>Risk and sub-tree analysis\<close>

fun leaf_risks :: "node_dict_t \<Rightarrow> int list \<Rightarrow> rat \<Rightarrow> error + rat" where
  "leaf_risks nd [] misclass_rate = Inr misclass_rate"
| "leaf_risks nd (i # is) misclass_rate =
     (case lookup nd (Some i) of
        Inl e \<Rightarrow> Inl e
      | Inr leaf \<Rightarrow>
          (case compute_error_rate leaf of
             Inl e \<Rightarrow> Inl e
           | Inr er \<Rightarrow> leaf_risks nd is (misclass_rate + reach_prob leaf * er)))"

definition total_misclass_rate :: "tree \<Rightarrow> error + rat" where
  "total_misclass_rate t = leaf_risks (node_dict t) (leaf_inds t) 0"

text \<open>
  One level of the descent of \<^verbatim>\<open>subtree_props\<close>: the \<^verbatim>\<open>for\<close> loop over \<^verbatim>\<open>rem_nodes\<close>, with
  the state \<open>(new_nodes, sub_misclass_rate, leaf_list)\<close>.
\<close>

type_synonym props_state = "int option list \<times> rat \<times> int list"

fun props_level :: "node_dict_t \<Rightarrow> int option list \<Rightarrow> props_state \<Rightarrow> error + props_state" where
  "props_level nd [] s = Inr s"
| "props_level nd (None # ks) s = Inl KeyError"
| "props_level nd (Some k # ks) (new_nodes, rate, leaf_list) =
     (case lookup nd (Some k) of
        Inl e \<Rightarrow> Inl e
      | Inr n \<Rightarrow>
          if truthy (left n) then props_level nd ks (new_nodes @ [left n, right n], rate, leaf_list)
          else (case compute_error_rate n of
                  Inl e \<Rightarrow> Inl e
                | Inr er \<Rightarrow> props_level nd ks (new_nodes, rate + reach_prob n * er, leaf_list @ [k])))"

partial_function (option) props_loop ::
  "node_dict_t \<Rightarrow> int option list \<Rightarrow> rat \<Rightarrow> int list \<Rightarrow> (error + rat \<times> int list) option" where
  "props_loop nd rem_nodes rate leaf_list =
     (if rem_nodes = [] then Some (Inr (rate, leaf_list))
      else (case props_level nd rem_nodes ([], rate, leaf_list) of
              Inl e \<Rightarrow> Some (Inl e)
            | Inr (new_nodes, rate', leaf_list') \<Rightarrow> props_loop nd new_nodes rate' leaf_list'))"

text \<open>
  The value is the printed output and what the call returns (\<open>None\<close> is Python's
  \<^verbatim>\<open>None\<close>, the bare \<^verbatim>\<open>return\<close> of the source).
\<close>

definition subtree_props ::
  "tree \<Rightarrow> int \<Rightarrow> (error + msg list \<times> (rat \<times> int list) option) option" where
  "subtree_props t node_index =
     (if node_index \<notin> set (keys (node_dict t)) then Some (Inr ([NotANode node_index], None))
      else (case lookup (node_dict t) (Some node_index) of
              Inl e \<Rightarrow> Some (Inl e)
            | Inr sub_root \<Rightarrow>
                if node_index \<in> set (leaf_inds t) then
                  (case compute_error_rate sub_root of
                     Inl e \<Rightarrow> Some (Inl e)
                   | Inr er \<Rightarrow> Some (Inr ([], Some (reach_prob sub_root * er, [node_index]))))
                else
                  (case props_loop (node_dict t) [left sub_root, right sub_root] 0 [] of
                     None \<Rightarrow> None
                   | Some (Inl e) \<Rightarrow> Some (Inl e)
                   | Some (Inr r) \<Rightarrow> Some (Inr ([], Some r)))))"

subsection \<open>Subtree removal\<close>

text \<open>One level of the descent, with the state \<open>(node_list, new_rem_nodes)\<close>.\<close>

fun collect_level ::
  "node_dict_t \<Rightarrow> int option list \<Rightarrow> int list \<times> int option list \<Rightarrow> error + int list \<times> int option list" where
  "collect_level nd [] s = Inr s"
| "collect_level nd (None # ks) s = Inl KeyError"
| "collect_level nd (Some k # ks) (node_list, new_rem_nodes) =
     (case lookup nd (Some k) of
        Inl e \<Rightarrow> Inl e
      | Inr node_obj \<Rightarrow>
          collect_level nd ks
            (node_list @ [k],
             if truthy (left node_obj) then new_rem_nodes @ [left node_obj, right node_obj]
             else new_rem_nodes))"

partial_function (option) collect_loop ::
  "node_dict_t \<Rightarrow> int option list \<Rightarrow> int list \<Rightarrow> (error + int list) option" where
  "collect_loop nd rem_nodes node_list =
     (if rem_nodes = [] then Some (Inr node_list)
      else (case collect_level nd rem_nodes (node_list, []) of
              Inl e \<Rightarrow> Some (Inl e)
            | Inr (node_list', new_rem_nodes) \<Rightarrow> collect_loop nd new_rem_nodes node_list'))"

text \<open>\<^verbatim>\<open>del self.node_dict[str(node_ind)]\<close> raises \<^verbatim>\<open>KeyError\<close> for a key that is not there.\<close>

fun delete_nodes :: "int list \<Rightarrow> node_dict_t \<times> int list \<Rightarrow> error + node_dict_t \<times> int list" where
  "delete_nodes [] s = Inr s"
| "delete_nodes (k # ks) (nd, ls) =
     (if k \<notin> set (keys nd) then Inl KeyError
      else delete_nodes ks (AList.delete k nd, if k \<in> set ls then remove1 k ls else ls))"

definition clear_children :: "node \<Rightarrow> node" where
  "clear_children n = n\<lparr>left := None, right := None\<rparr>"

text \<open>
  \<^verbatim>\<open>root_node\<close> is the object fetched before the deletions; clearing its fields changes
  the dictionary only if its key is still there, which is what \<open>map_entry\<close> does.
\<close>

definition remove_subtree :: "tree \<Rightarrow> int \<Rightarrow> (error + tree \<times> msg list) option" where
  "remove_subtree t node_index =
     (if node_index \<notin> set (keys (node_dict t)) then Some (Inr (t, [NotANode node_index]))
      else if node_index \<in> set (leaf_inds t) then Some (Inr (t, [IsALeaf node_index]))
      else (case lookup (node_dict t) (Some node_index) of
              Inl e \<Rightarrow> Some (Inl e)
            | Inr root_node \<Rightarrow>
                (case collect_loop (node_dict t) [left root_node, right root_node] [] of
                   None \<Rightarrow> None
                 | Some (Inl e) \<Rightarrow> Some (Inl e)
                 | Some (Inr node_list) \<Rightarrow>
                     (case delete_nodes node_list (node_dict t, leaf_inds t) of
                        Inl e \<Rightarrow> Some (Inl e)
                      | Inr (nd, ls) \<Rightarrow>
                          Some (Inr (t\<lparr>node_dict := AList.map_entry node_index clear_children nd,
                                       leaf_inds := ls @ [node_index]\<rparr>, []))))))"

subsection \<open>Leaf siblings and useless leaves\<close>

text \<open>
  The \<^verbatim>\<open>while\<close> loop of \<^verbatim>\<open>leaf_siblings\<close> over \<^verbatim>\<open>not_visited\<close>. The second
  \<^verbatim>\<open>not_visited.remove\<close> raises \<^verbatim>\<open>ValueError\<close> when the other child is the current leaf
  itself and occurs only once.
\<close>

function siblings_loop :: "node_dict_t \<Rightarrow> int list \<Rightarrow> (int \<times> int) list \<Rightarrow> error + (int \<times> int) list" where
  "siblings_loop nd [] siblings = Inr siblings"
| "siblings_loop nd (curr_leaf_ind # rest) siblings =
     (case lookup nd (Some curr_leaf_ind) of
        Inl e \<Rightarrow> Inl e
      | Inr leaf \<Rightarrow>
          (case lookup nd (parent leaf) of
             Inl e \<Rightarrow> Inl e
           | Inr par \<Rightarrow>
               (case (if Some curr_leaf_ind = left par then right par else left par) of
                  None \<Rightarrow> siblings_loop nd rest siblings
                | Some other_child_ind \<Rightarrow>
                    if other_child_ind \<in> set (curr_leaf_ind # rest) then
                      (if other_child_ind \<in> set rest then
                         siblings_loop nd (remove1 other_child_ind rest)
                           (siblings @ [(curr_leaf_ind, other_child_ind)])
                       else Inl ValueError)
                    else siblings_loop nd rest siblings)))"
  by pat_completeness auto
termination
  by (relation "measure (\<lambda>(nd, not_visited, siblings). length not_visited)")
     (auto simp: length_remove1 less_Suc_eq_le)

definition leaf_siblings :: "tree \<Rightarrow> error + (int \<times> int) list" where
  "leaf_siblings t = siblings_loop (node_dict t) (leaf_inds t) []"

text \<open>
  The body of the first \<^verbatim>\<open>for\<close> loop of \<^verbatim>\<open>cut_useless_leaves\<close>: the test
  \<^verbatim>\<open>parent_rate == av_rate\<close> for one pair of siblings.
\<close>

definition pair_useless :: "node_dict_t \<Rightarrow> int \<times> int \<Rightarrow> error + bool" where
  "pair_useless nd leaves =
     (case lookup nd (Some (fst leaves)) of Inl e \<Rightarrow> Inl e | Inr c0 \<Rightarrow>
     (case lookup nd (parent c0) of Inl e \<Rightarrow> Inl e | Inr common_parent \<Rightarrow>
     (case compute_error_rate common_parent of Inl e \<Rightarrow> Inl e | Inr parent_rate \<Rightarrow>
     (case lookup nd (Some (snd leaves)) of Inl e \<Rightarrow> Inl e | Inr c1 \<Rightarrow>
     (case compute_error_rate c0 of Inl e \<Rightarrow> Inl e | Inr e0 \<Rightarrow>
     (case compute_error_rate c1 of Inl e \<Rightarrow> Inl e | Inr e1 \<Rightarrow>
        Inr (parent_rate = (e0 * reach_prob c0 + e1 * reach_prob c1) / 2)))))))"

text \<open>The loop itself, collecting \<^verbatim>\<open>sibs_to_remove\<close>.\<close>

fun mark_useless :: "node_dict_t \<Rightarrow> (int \<times> int) list \<Rightarrow> int list \<Rightarrow> error + int list" where
  "mark_useless nd [] sibs_to_remove = Inr sibs_to_remove"
| "mark_useless nd (leaves # sibs) sibs_to_remove =
     (case pair_useless nd leaves of
        Inl e \<Rightarrow> Inl e
      | Inr useless \<Rightarrow>
          mark_useless nd sibs
            (if useless then sibs_to_remove @ [fst leaves, snd leaves] else sibs_to_remove))"

text \<open>The second loop: \<^verbatim>\<open>del self.node_dict[str(i)]\<close>, then \<^verbatim>\<open>self.leaf_inds.remove(i)\<close>.\<close>

fun delete_leaves :: "int list \<Rightarrow> node_dict_t \<times> int list \<Rightarrow> error + node_dict_t \<times> int list" where
  "delete_leaves [] s = Inr s"
| "delete_leaves (i # is) (nd, ls) =
     (if i \<notin> set (keys nd) then Inl KeyError
      else if i \<notin> set ls then Inl ValueError
      else delete_leaves is (AList.delete i nd, remove1 i ls))"

definition cut_useless_leaves :: "tree \<Rightarrow> error + tree \<times> msg list" where
  "cut_useless_leaves t =
     (case leaf_siblings t of
        Inl e \<Rightarrow> Inl e
      | Inr sibs \<Rightarrow>
          (case mark_useless (node_dict t) sibs [] of
             Inl e \<Rightarrow> Inl e
           | Inr sibs_to_remove \<Rightarrow>
               (case delete_leaves (rev (sort sibs_to_remove)) (node_dict t, leaf_inds t) of
                  Inl e \<Rightarrow> Inl e
                | Inr (nd, ls) \<Rightarrow>
                    Inr (t\<lparr>node_dict := nd, leaf_inds := ls\<rparr>,
                         [SiblingsRemoved (length sibs_to_remove)]))))"

subsection \<open>Cost-complexity pruning sequence\<close>

text \<open>
  The link strength of one node of the working copy \<open>T\<close>. The tree \<open>src\<close> is the one
  whose \<^verbatim>\<open>subtree_props\<close> is called: the source calls \<^verbatim>\<open>self.subtree_props\<close>. Unpacking the
  \<^verbatim>\<open>None\<close> that \<^verbatim>\<open>subtree_props\<close> returns for a missing node raises \<^verbatim>\<open>TypeError\<close>.
\<close>

definition node_link :: "tree \<Rightarrow> tree \<Rightarrow> int \<Rightarrow> (error + link) option" where
  "node_link src T k =
     (if k \<in> set (leaf_inds T) then Some (Inr Infinity)
      else (case lookup (node_dict T) (Some k) of
              Inl e \<Rightarrow> Some (Inl e)
            | Inr n \<Rightarrow>
                (case compute_error_rate n of
                   Inl e \<Rightarrow> Some (Inl e)
                 | Inr node_error \<Rightarrow>
                     (case subtree_props src k of
                        None \<Rightarrow> None
                      | Some (Inl e) \<Rightarrow> Some (Inl e)
                      | Some (Inr (out, None)) \<Rightarrow> Some (Inl TypeError)
                      | Some (Inr (out, Some (sub_error, sub_leaves))) \<Rightarrow>
                          if sub_error > node_error then Some (Inl ValueError)
                          else if length sub_leaves = 1 then Some (Inl ValueError)
                          else Some (Inr (Finite ((node_error - sub_error)
                                                  / (of_nat (length sub_leaves) - 1))))))))"

fun link_values :: "tree \<Rightarrow> tree \<Rightarrow> int list \<Rightarrow> (error + link list) option" where
  "link_values src T [] = Some (Inr [])"
| "link_values src T (k # ks) =
     (case node_link src T k of
        None \<Rightarrow> None
      | Some (Inl e) \<Rightarrow> Some (Inl e)
      | Some (Inr l) \<Rightarrow>
          (case link_values src T ks of
             None \<Rightarrow> None
           | Some (Inl e) \<Rightarrow> Some (Inl e)
           | Some (Inr ls) \<Rightarrow> Some (Inr (l # ls))))"

text \<open>The node that the loop body collapses: \<^verbatim>\<open>nodes[np.argmin(links)]\<close>.\<close>

definition weakest_link :: "tree \<Rightarrow> link list \<Rightarrow> int" where
  "weakest_link T links = keys (node_dict T) ! argmin_by link_less links"

partial_function (option) seq_loop ::
  "tree \<Rightarrow> tree \<Rightarrow> tree list \<Rightarrow> msg list \<Rightarrow> (error + tree list \<times> msg list) option" where
  "seq_loop src T seq_tree out =
     (if 1 < length (node_dict T) then
        (case link_values src T (keys (node_dict T)) of
           None \<Rightarrow> None
         | Some (Inl e) \<Rightarrow> Some (Inl e)
         | Some (Inr links) \<Rightarrow>
             (case remove_subtree T (weakest_link T links) of
                None \<Rightarrow> None
              | Some (Inl e) \<Rightarrow> Some (Inl e)
              | Some (Inr (T', out')) \<Rightarrow> seq_loop src T' (seq_tree @ [T']) (out @ out')))
      else Some (Inr (seq_tree, out)))"

text \<open>
  \<^verbatim>\<open>cost_complexity_seq\<close> cleans \<^verbatim>\<open>self\<close> in place and returns the sequence; the value is
  the cleaned \<^verbatim>\<open>self\<close>, the sequence and the output.
\<close>

definition cost_complexity_seq :: "tree \<Rightarrow> (error + tree \<times> tree list \<times> msg list) option" where
  "cost_complexity_seq t =
     (case cut_useless_leaves t of
        Inl e \<Rightarrow> Some (Inl e)
      | Inr (self', out) \<Rightarrow>
          (case seq_loop self' self' [self'] out of
             None \<Rightarrow> None
           | Some (Inl e) \<Rightarrow> Some (Inl e)
           | Some (Inr (seq_tree, out')) \<Rightarrow> Some (Inr (self', seq_tree, out'))))"

section \<open>Well-formedness and example trees\<close>

text \<open>
  The structural invariant of the tree states that the operations produce: the keys are
  distinct and not negative, \<open>leaf_inds\<close> has no duplicates, the root \<open>0\<close> is present and
  has no parent, a node has both child fields or none, child identifiers are greater
  than the node's own and differ from each other, and \<open>leaf_inds\<close> holds exactly the
  identifiers of the nodes whose child fields are absent.
\<close>

definition childless :: "node_dict_t \<Rightarrow> int list" where
  "childless nd = map fst (filter (\<lambda>(k, n). left n = None \<and> right n = None) nd)"

definition node_ok :: "int \<Rightarrow> node \<Rightarrow> bool" where
  "node_ok k n \<longleftrightarrow>
     0 \<le> k \<and> (left n = None \<longleftrightarrow> right n = None) \<and>
     (\<forall>c. left n = Some c \<or> right n = Some c \<longrightarrow> k < c) \<and>
     (left n = right n \<longrightarrow> left n = None)"

definition tree_inv :: "tree \<Rightarrow> bool" where
  "tree_inv t \<longleftrightarrow>
     distinct (keys (node_dict t)) \<and> distinct (leaf_inds t) \<and>
     (case map_of (node_dict t) 0 of None \<Rightarrow> False | Some r \<Rightarrow> parent r = None) \<and>
     (\<forall>(k, n) \<in> set (node_dict t). node_ok k n) \<and>
     set (leaf_inds t) = set (childless (node_dict t))"

text \<open>Every node has at least one class probability, so that its error rate is defined.\<close>

definition has_class_probs :: "tree \<Rightarrow> bool" where
  "has_class_probs t \<longleftrightarrow> (\<forall>(k, n) \<in> set (node_dict t). class_prob n \<noteq> [])"

text \<open>The tree that \<open>Tree_init\<close> builds from three samples with one label.\<close>

definition ex_single :: tree where
  "ex_single =
     \<lparr>node_dict = [(0, Node (NDArray [3] [1, 2, 3]) [7, 7, 7] True 1 [1] [(0, (1, 3))] None)],
      leaf_inds = [0], symbols = [7]\<rparr>"

text \<open>
  The test of lines 316-319 as a predicate on a pair of siblings: the error rate of the
  common parent equals half the sum of \<open>reach_prob\<close> times error rate of the two children.
\<close>

definition equal_rate :: "node_dict_t \<Rightarrow> int \<times> int \<Rightarrow> bool" where
  "equal_rate nd p =
     (case (map_of nd (fst p), map_of nd (snd p)) of
        (Some c0, Some c1) \<Rightarrow>
          (case lookup nd (parent c0) of
             Inr par \<Rightarrow>
               1 - list_max (class_prob par) =
                 ((1 - list_max (class_prob c0)) * reach_prob c0
                  + (1 - list_max (class_prob c1)) * reach_prob c1) / 2
           | Inl e \<Rightarrow> False)
      | _ \<Rightarrow> False)"

text \<open>
  The criterion in the words of the specification: the average of the error rates of the
  two children, weighted by their reach probabilities.
\<close>

definition weighted_average :: "node \<Rightarrow> node \<Rightarrow> rat" where
  "weighted_average c0 c1 =
     (reach_prob c0 * (1 - list_max (class_prob c0)) + reach_prob c1 * (1 - list_max (class_prob c1)))
     / (reach_prob c0 + reach_prob c1)"

text \<open>Example trees: a node with given reach probability, class probabilities and links.\<close>

definition ex_node :: "rat \<Rightarrow> rat list \<Rightarrow> int option \<Rightarrow> int option \<Rightarrow> int option \<Rightarrow> node" where
  "ex_node rp cp par l r =
     (Node (NDArray [0] []) [] True rp cp [] par)\<lparr>left := l, right := r\<rparr>"

text \<open>A root whose two children satisfy the test of \<open>cut_useless_leaves\<close>.\<close>

definition ex_cut :: tree where
  "ex_cut = \<lparr>node_dict = [(0, ex_node 1 [3/4, 1/4] None (Some 1) (Some 2)),
                            (1, ex_node (1/2) [1/2, 1/2] (Some 0) None None),
                            (2, ex_node (1/2) [1/2, 1/2] (Some 0) None None)],
             leaf_inds = [1, 2], symbols = [0, 1]\<rparr>"

text \<open>The identifiers of a list of sibling pairs, as \<^verbatim>\<open>sibs_to_remove += sibs[i]\<close> lists them.\<close>

definition flatten :: "(int \<times> int) list \<Rightarrow> int list" where
  "flatten sibs = concat (map (\<lambda>p. [fst p, snd p]) sibs)"

text \<open>
  One split seen as a step on trees: what the loop body of a pass does to \<open>node_dict\<close>,
  together with the update of \<open>leaf_inds\<close> that the pass makes for this leaf at its end.
  It is used to state the invariants of a pass.
\<close>

definition split_one :: "tree \<Rightarrow> int \<Rightarrow> int \<Rightarrow> node \<Rightarrow> node \<Rightarrow> tree" where
  "split_one u i max_key lc rc =
     u\<lparr>node_dict := AList.update (max_key + 2) rc
                      (AList.update (max_key + 1) lc
                         (AList.map_entry i (set_children (max_key + 1) (max_key + 2)) (node_dict u))),
       leaf_inds := remove1 i (leaf_inds u) @ [max_key + 1, max_key + 2]\<rparr>"

text \<open>\<open>max_key\<close> is at least every key, so that \<open>max_key + 1\<close> and \<open>max_key + 2\<close> are fresh.\<close>

definition keys_below :: "int \<Rightarrow> tree \<Rightarrow> bool" where
  "keys_below max_key u \<longleftrightarrow> (\<forall>k \<in> set (keys (node_dict u)). k \<le> max_key)"

text \<open>The sum of \<open>reach_prob\<close> over the current leaves.\<close>

definition reach_of :: "node_dict_t \<Rightarrow> int \<Rightarrow> rat" where
  "reach_of nd k = (case map_of nd k of None \<Rightarrow> 0 | Some n \<Rightarrow> reach_prob n)"

definition leaf_reach_sum :: "tree \<Rightarrow> rat" where
  "leaf_reach_sum u = sum_list (map (reach_of (node_dict u)) (leaf_inds u))"

text \<open>The two branch probabilities that the collaborator returns sum to 1.\<close>

definition branch_probs_sum_one :: "collab \<Rightarrow> bool" where
  "branch_probs_sum_one sp \<longleftrightarrow>
     (\<forall>leaf syms theta f. fst (snd (snd (compute_probs_KDE sp leaf syms theta f)))
                           + snd (snd (snd (compute_probs_KDE sp leaf syms theta f))) = 1)"

text \<open>
  The state \<open>(max_key, tree)\<close> of the \<^verbatim>\<open>while\<close> loop of \<open>fit_full_tree\<close> after at most \<open>n\<close>
  passes: the points during growth at which \<open>leaf_inds\<close> is up to date.
\<close>

fun fit_iter :: "collab \<Rightarrow> nat \<Rightarrow> int \<Rightarrow> tree \<Rightarrow> error + int \<times> tree" where
  "fit_iter sp 0 max_key t = Inr (max_key, t)"
| "fit_iter sp (Suc n) max_key t =
     (case check_full_stopped t of
        Inl e \<Rightarrow> Inl e
      | Inr stopped \<Rightarrow>
          if stopped then Inr (max_key, t)
          else (case fit_pass sp max_key t of
                  Inl e \<Rightarrow> Inl e
                | Inr (max_key', t') \<Rightarrow> fit_iter sp n max_key' t'))"

text \<open>
  A collaborator for the examples: it sends the first sample of a leaf to the left and
  the others to the right, with branch probabilities one half each.
\<close>

definition ex_collab :: collab where
  "ex_collab =
     \<lparr>split_features = (\<lambda>n. ([0], [0])),
      compute_probs_KDE = (\<lambda>n syms theta f. ([1, 0], [0, 1], 1/2, 1/2)),
      update_rules = (\<lambda>theta f n. ([(0, (0, 0))], [(0, (1, 1))])),
      filter_data = (\<lambda>d ls rs f. (d, if rs = [(0, (0, 0))] then [hd ls] else tl ls))\<rparr>"

text \<open>The tree built from two samples with two labels, and what growth makes of it.\<close>

definition ex_two :: tree where
  "ex_two =
     \<lparr>node_dict = [(0, Node (NDArray [2] [1, 2]) [0, 1] False 1 [1/2, 1/2] [(0, (1, 2))] None)],
      leaf_inds = [0], symbols = [0, 1]\<rparr>"

definition ex_two_grown :: tree where
  "ex_two_grown =
     \<lparr>node_dict =
        [(0, (Node (NDArray [2] [1, 2]) [0, 1] False 1 [1/2, 1/2] [(0, (1, 2))] None)
               \<lparr>left := Some 1, right := Some 2\<rparr>),
         (1, Node (NDArray [2] [1, 2]) [0] True (1/2) [1, 0] [(0, (0, 0))] (Some 0)),
         (2, Node (NDArray [2] [1, 2]) [1] True (1/2) [0, 1] [(0, (1, 1))] (Some 0))],
      leaf_inds = [1, 2], symbols = [0, 1]\<rparr>"

text \<open>
  A collaborator that splits in the same way but whose density estimate separates
  nothing: the class probabilities of both children are one half each, as those of the
  root. Then the tree that growth makes of \<open>ex_two\<close>, with its three nodes, and the same
  tree with the root as its only leaf.
\<close>

definition ex_flat :: collab where
  "ex_flat =
     \<lparr>split_features = (\<lambda>n. ([0], [0])),
      compute_probs_KDE = (\<lambda>n syms theta f. ([1/2, 1/2], [1/2, 1/2], 1/2, 1/2)),
      update_rules = (\<lambda>theta f n. ([(0, (0, 0))], [(0, (1, 1))])),
      filter_data = (\<lambda>d ls rs f. (d, if rs = [(0, (0, 0))] then [hd ls] else tl ls))\<rparr>"

definition ex_flat_root :: node where
  "ex_flat_root = Node (NDArray [2] [1, 2]) [0, 1] False 1 [1/2, 1/2] [(0, (1, 2))] None"

definition ex_flat_left :: node where
  "ex_flat_left = Node (NDArray [2] [1, 2]) [0] True (1/2) [1/2, 1/2] [(0, (0, 0))] (Some 0)"

definition ex_flat_right :: node where
  "ex_flat_right = Node (NDArray [2] [1, 2]) [1] True (1/2) [1/2, 1/2] [(0, (1, 1))] (Some 0)"

definition ex_flat_grown :: tree where
  "ex_flat_grown =
     \<lparr>node_dict = [(0, ex_flat_root\<lparr>left := Some 1, right := Some 2\<rparr>),
                   (1, ex_flat_left), (2, ex_flat_right)],
      leaf_inds = [1, 2], symbols = [0, 1]\<rparr>"

definition ex_flat_cut :: tree where
  "ex_flat_cut = \<lparr>node_dict = [(0, ex_flat_root)], leaf_inds = [0], symbols = [0, 1]\<rparr>"

text \<open>
  The assumption of C2 on the collaborator: for a leaf whose labels have more than one
  distinct value, the split succeeds and its two label subsets are not empty and
  together are the labels of the leaf.
\<close>

definition strict_partition :: "collab \<Rightarrow> rat list \<Rightarrow> bool" where
  "strict_partition sp syms \<longleftrightarrow>
     (\<forall>i leaf. 1 < length (np_unique (labels leaf)) \<longrightarrow>
        (\<exists>lc rc. new_children sp syms i leaf = Inr (lc, rc) \<and>
           labels lc \<noteq> [] \<and> labels rc \<noteq> [] \<and>
           mset (labels lc) + mset (labels rc) = mset (labels leaf)))"

text \<open>
  The invariant of growth behind termination: every leaf has labels, \<open>is_stopped\<close> says
  whether they have one distinct value, the leaves hold \<open>n\<close> labels together, and a
  tree with \<open>l\<close> leaves has \<open>2 l - 1\<close> nodes.
\<close>

definition labels_of :: "node_dict_t \<Rightarrow> int \<Rightarrow> rat list" where
  "labels_of nd k = (case map_of nd k of None \<Rightarrow> [] | Some n \<Rightarrow> labels n)"

definition label_count :: "tree \<Rightarrow> nat" where
  "label_count u = sum_list (map (\<lambda>i. length (labels_of (node_dict u) i)) (leaf_inds u))"

definition labels_inv :: "nat \<Rightarrow> rat list \<Rightarrow> tree \<Rightarrow> bool" where
  "labels_inv n syms u \<longleftrightarrow>
     symbols u = syms \<and>
     (\<forall>i \<in> set (leaf_inds u). \<forall>leaf. map_of (node_dict u) i = Some leaf \<longrightarrow>
        labels leaf \<noteq> [] \<and> (is_stopped leaf \<longleftrightarrow> length (np_unique (labels leaf)) = 1)) \<and>
     label_count u = n \<and>
     length (node_dict u) + 1 = 2 * length (leaf_inds u)"

text \<open>
  The number of splits that made a tree from its root: every split adds two nodes.
\<close>

definition split_count :: "tree \<Rightarrow> nat" where
  "split_count u = (length (node_dict u) - 1) div 2"

text \<open>Every leaf is stopped and its labels have exactly one distinct value.\<close>

definition leaves_pure :: "tree \<Rightarrow> bool" where
  "leaves_pure u \<longleftrightarrow>
     (\<forall>i \<in> set (leaf_inds u). \<exists>leaf. map_of (node_dict u) i = Some leaf \<and>
        is_stopped leaf \<and> card (set (labels leaf)) = 1)"

text \<open>
  The tree states that the operations of the module produce from a constructed tree,
  with any collaborator and any node identifier; an operation that raises produces
  none.
\<close>

inductive reachable :: "tree \<Rightarrow> bool" where
  init: "Tree_init d ls = Inr t \<Longrightarrow> reachable t"
| fit: "reachable t \<Longrightarrow> fit_full_tree sp t = Some (Inr t') \<Longrightarrow> reachable t'"
| remove: "reachable t \<Longrightarrow> remove_subtree t k = Some (Inr (t', out)) \<Longrightarrow> reachable t'"
| cut: "reachable t \<Longrightarrow> cut_useless_leaves t = Inr (t', out) \<Longrightarrow> reachable t'"

text \<open>Both child fields of a node are absent.\<close>

definition no_children :: "node \<Rightarrow> bool" where
  "no_children n \<longleftrightarrow> left n = None \<and> right n = None"

text \<open>
  The strict descendants of a node: the transitive closure of the child fields.
\<close>

definition child_of :: "node_dict_t \<Rightarrow> int \<Rightarrow> int \<Rightarrow> bool" where
  "child_of nd p c \<longleftrightarrow> (\<exists>n. map_of nd p = Some n \<and> (left n = Some c \<or> right n = Some c))"

definition descendant :: "node_dict_t \<Rightarrow> int \<Rightarrow> int \<Rightarrow> bool" where
  "descendant nd = (child_of nd)\<^sup>+\<^sup>+"

text \<open>The two children of a node that has both child fields, in the order of the descent.\<close>

definition children :: "node_dict_t \<Rightarrow> int \<Rightarrow> int list" where
  "children nd x =
     (case map_of nd x of
        None \<Rightarrow> []
      | Some n \<Rightarrow> (case (left n, right n) of (Some l, Some r) \<Rightarrow> [l, r] | _ \<Rightarrow> []))"

text \<open>
  Every child field refers to a node of \<open>node_dict\<close> whose \<open>parent\<close> field refers back: no
  dangling identifiers and no node with two parents.
\<close>

definition tree_closed :: "tree \<Rightarrow> bool" where
  "tree_closed t \<longleftrightarrow>
     (\<forall>(k, n) \<in> set (node_dict t). \<forall>c. left n = Some c \<or> right n = Some c \<longrightarrow>
        (case map_of (node_dict t) c of None \<Rightarrow> False | Some m \<Rightarrow> parent m = Some k))"

text \<open>A leaf of \<open>node_dict\<close>, and its contribution \<open>reach_prob * (1 - max class_prob)\<close>.\<close>

definition is_leaf :: "node_dict_t \<Rightarrow> int \<Rightarrow> bool" where
  "is_leaf nd x = (case map_of nd x of None \<Rightarrow> False | Some n \<Rightarrow> no_children n)"

definition leaf_risk :: "node_dict_t \<Rightarrow> int \<Rightarrow> rat" where
  "leaf_risk nd x =
     (case map_of nd x of None \<Rightarrow> 0 | Some n \<Rightarrow> reach_prob n * (1 - list_max (class_prob n)))"

text \<open>A tree with two internal nodes and three leaves.\<close>

definition ex_five :: tree where
  "ex_five =
     \<lparr>node_dict = [(0, ex_node 1 [1/2, 1/2] None (Some 1) (Some 2)),
                   (1, ex_node (1/2) [3/4, 1/4] (Some 0) (Some 3) (Some 4)),
                   (2, ex_node (1/2) [1, 0] (Some 0) None None),
                   (3, ex_node (1/4) [1, 0] (Some 1) None None),
                   (4, ex_node (1/4) [1/2, 1/2] (Some 1) None None)],
      leaf_inds = [2, 3, 4], symbols = [0, 1]\<rparr>"

text \<open>
  A dataset of six samples and a collaborator that grows it, in three passes, into the
  tree \<open>ex_nine\<close> with four internal nodes; \<open>ex_nine_1\<close> to \<open>ex_nine_4\<close> are the trees that
  \<open>cost_complexity_seq\<close> makes from it by collapsing the nodes 3, 1, 2 and 0.
\<close>

definition ex_data :: ndarray where
  "ex_data = NDArray [6] [1, 2, 3, 4, 5, 6]"

definition ex_left_rules :: rules_t where
  "ex_left_rules = [(0, (0, 0))]"

definition ex_right_rules :: rules_t where
  "ex_right_rules = [(0, (1, 1))]"

definition ex_cut_at :: "rat list \<Rightarrow> nat" where
  "ex_cut_at ls = (if length ls = 6 then 3 else if length ls = 3 then 2 else 1)"

definition ex_grower :: collab where
  "ex_grower =
     \<lparr>split_features = (\<lambda>n. ([0], [0])),
      compute_probs_KDE = (\<lambda>n syms theta f.
         if labels n = [0, 1, 0, 1, 1, 0] then ([39/50, 11/50], [22/25, 3/25], 1/2, 1/2)
         else if labels n = [0, 1, 0] then ([9/10, 1/10], [1, 0], 1/2, 1/2)
         else if labels n = [1, 1, 0] then ([0, 1], [1, 0], 1/2, 1/2)
         else ([1, 0], [0, 1], 1/2, 1/2)),
      update_rules = (\<lambda>theta f n. (ex_left_rules, ex_right_rules)),
      filter_data = (\<lambda>d ls rs f.
         (d, if rs = ex_left_rules then take (ex_cut_at ls) ls else drop (ex_cut_at ls) ls))\<rparr>"

definition grown_node ::
  "rat list \<Rightarrow> rat \<Rightarrow> rat list \<Rightarrow> rules_t \<Rightarrow> int option \<Rightarrow> int option \<Rightarrow> int option \<Rightarrow> node" where
  "grown_node ls rp cp rs par l r =
     (Node ex_data ls (length (np_unique ls) = 1) rp cp rs par)\<lparr>left := l, right := r\<rparr>"

definition ex_seed :: tree where
  "ex_seed =
     \<lparr>node_dict = [(0, grown_node [0, 1, 0, 1, 1, 0] 1 [1/2, 1/2] [(0, (1, 6))] None None None)],
      leaf_inds = [0], symbols = [0, 1]\<rparr>"

definition ex_nine :: tree where
  "ex_nine =
     \<lparr>node_dict =
        [(0, grown_node [0, 1, 0, 1, 1, 0] 1 [1/2, 1/2] [(0, (1, 6))] None (Some 1) (Some 2)),
         (1, grown_node [0, 1, 0] (1/2) [39/50, 11/50] ex_left_rules (Some 0) (Some 3) (Some 4)),
         (2, grown_node [1, 1, 0] (1/2) [22/25, 3/25] ex_right_rules (Some 0) (Some 5) (Some 6)),
         (3, grown_node [0, 1] (1/4) [9/10, 1/10] ex_left_rules (Some 1) (Some 7) (Some 8)),
         (4, grown_node [0] (1/4) [1, 0] ex_right_rules (Some 1) None None),
         (5, grown_node [1, 1] (1/4) [0, 1] ex_left_rules (Some 2) None None),
         (6, grown_node [0] (1/4) [1, 0] ex_right_rules (Some 2) None None),
         (7, grown_node [0] (1/8) [1, 0] ex_left_rules (Some 3) None None),
         (8, grown_node [1] (1/8) [0, 1] ex_right_rules (Some 3) None None)],
      leaf_inds = [4, 5, 6, 7, 8], symbols = [0, 1]\<rparr>"

definition ex_nine_1 :: tree where
  "ex_nine_1 =
     \<lparr>node_dict =
        [(0, grown_node [0, 1, 0, 1, 1, 0] 1 [1/2, 1/2] [(0, (1, 6))] None (Some 1) (Some 2)),
         (1, grown_node [0, 1, 0] (1/2) [39/50, 11/50] ex_left_rules (Some 0) (Some 3) (Some 4)),
         (2, grown_node [1, 1, 0] (1/2) [22/25, 3/25] ex_right_rules (Some 0) (Some 5) (Some 6)),
         (3, grown_node [0, 1] (1/4) [9/10, 1/10] ex_left_rules (Some 1) None None),
         (4, grown_node [0] (1/4) [1, 0] ex_right_rules (Some 1) None None),
         (5, grown_node [1, 1] (1/4) [0, 1] ex_left_rules (Some 2) None None),
         (6, grown_node [0] (1/4) [1, 0] ex_right_rules (Some 2) None None)],
      leaf_inds = [4, 5, 6, 3], symbols = [0, 1]\<rparr>"

definition ex_nine_2 :: tree where
  "ex_nine_2 =
     \<lparr>node_dict =
        [(0, grown_node [0, 1, 0, 1, 1, 0] 1 [1/2, 1/2] [(0, (1, 6))] None (Some 1) (Some 2)),
         (1, grown_node [0, 1, 0] (1/2) [39/50, 11/50] ex_left_rules (Some 0) None None),
         (2, grown_node [1, 1, 0] (1/2) [22/25, 3/25] ex_right_rules (Some 0) (Some 5) (Some 6)),
         (5, grown_node [1, 1] (1/4) [0, 1] ex_left_rules (Some 2) None None),
         (6, grown_node [0] (1/4) [1, 0] ex_right_rules (Some 2) None None)],
      leaf_inds = [5, 6, 1], symbols = [0, 1]\<rparr>"

definition ex_nine_3 :: tree where
  "ex_nine_3 =
     \<lparr>node_dict =
        [(0, grown_node [0, 1, 0, 1, 1, 0] 1 [1/2, 1/2] [(0, (1, 6))] None (Some 1) (Some 2)),
         (1, grown_node [0, 1, 0] (1/2) [39/50, 11/50] ex_left_rules (Some 0) None None),
         (2, grown_node [1, 1, 0] (1/2) [22/25, 3/25] ex_right_rules (Some 0) None None)],
      leaf_inds = [1, 2], symbols = [0, 1]\<rparr>"

definition ex_nine_4 :: tree where
  "ex_nine_4 =
     \<lparr>node_dict =
        [(0, grown_node [0, 1, 0, 1, 1, 0] 1 [1/2, 1/2] [(0, (1, 6))] None None None)],
      leaf_inds = [0], symbols = [0, 1]\<rparr>"

text \<open>
  The tree states made from a constructed tree by growth and subtree removal alone; they
  are well formed and their child fields refer to existing nodes (\<open>consistent_closed\<close>).
\<close>

inductive consistent :: "tree \<Rightarrow> bool" where
  init: "Tree_init d ls = Inr t \<Longrightarrow> consistent t"
| fit: "consistent t \<Longrightarrow> fit_full_tree sp t = Some (Inr t') \<Longrightarrow> consistent t'"
| remove: "consistent t \<Longrightarrow> remove_subtree t k = Some (Inr (t', out)) \<Longrightarrow> consistent t'"

section \<open>Properties\<close>

subsection \<open>Lookup\<close>

lemma lookup_InrD:
  "lookup nd ko = Inr n \<Longrightarrow> \<exists>k. ko = Some k \<and> map_of nd k = Some n \<and> (k, n) \<in> set nd"
  by (cases ko) (auto split: option.splits dest: map_of_SomeD)

lemma lookup_Inl: "lookup nd ko = Inl e \<Longrightarrow> e = KeyError"
  by (cases ko) (auto split: option.splits)

lemma ex_single_init: "Tree_init (NDArray [3] [1, 2, 3]) [7, 7, 7] = Inr ex_single"
  by (simp add: Tree_init_def ex_single_def root_rules_def ndim_def np_unique_def
      class_priors_def list_min_def list_max_def Let_def)

lemma ex_single_inv: "tree_inv ex_single"
  by (simp add: tree_inv_def node_ok_def ex_single_def keys_def childless_def Node_def)

subsection \<open>Missing identifiers\<close>

text \<open>
  C5, as stated, fails: for an identifier that is not in \<open>node_dict\<close>, both operations
  print a notice and return \<^verbatim>\<open>None\<close>; nothing is raised.
\<close>

theorem C5_counterexample:
  "5 \<notin> set (keys (node_dict ex_single)) \<and>
   subtree_props ex_single 5 = Some (Inr ([NotANode 5], None)) \<and>
   remove_subtree ex_single 5 = Some (Inr (ex_single, [NotANode 5]))"
  by (simp add: subtree_props_def remove_subtree_def ex_single_def keys_def)

text \<open>
  C5, amended: for every identifier that is not in \<open>node_dict\<close>, \<open>subtree_props\<close> prints
  the notice and returns \<^verbatim>\<open>None\<close>, and \<open>remove_subtree\<close> prints the notice and leaves the
  tree as it is; neither raises.
\<close>

theorem C5_missing_returns_none:
  "k \<notin> set (keys (node_dict t)) \<Longrightarrow>
     subtree_props t k = Some (Inr ([NotANode k], None)) \<and>
     remove_subtree t k = Some (Inr (t, [NotANode k]))"
  by (simp add: subtree_props_def remove_subtree_def)

theorem C5_missing_returns_none_witness:
  "3 \<notin> set (keys (node_dict ex_single)) \<and>
   subtree_props ex_single 3 = Some (Inr ([NotANode 3], None)) \<and>
   remove_subtree ex_single 3 = Some (Inr (ex_single, [NotANode 3]))"
proof -
  have h: "3 \<notin> set (keys (node_dict ex_single))"
    by (simp add: ex_single_def keys_def)
  from h C5_missing_returns_none [OF h] show ?thesis by simp
qed

subsection \<open>Construction\<close>

text \<open>
  C9, as stated, fails: an empty 1-D vector is not accepted, the minimum of the data
  raises \<^verbatim>\<open>ValueError\<close>.
\<close>

theorem C9_counterexample:
  "ndim (NDArray [0] []) = 1 \<and> Tree_init (NDArray [0] []) [] = Inl ValueError"
  by (simp add: Tree_init_def root_rules_def ndim_def Let_def)

text \<open>
  C9, amended: construction fails with \<^verbatim>\<open>ValueError\<close>, and no tree, whenever the data has
  more than two dimensions; a 1-D vector with at least one entry and a 2-D matrix
  (rows are features, columns are samples) with at least one column are accepted.
\<close>

theorem C9_dimension_check:
  "(2 < ndim d \<longrightarrow> Tree_init d ls = Inl ValueError) \<and>
   (ndim d = 1 \<and> flat d \<noteq> [] \<longrightarrow> (\<exists>t. Tree_init d ls = Inr t)) \<and>
   (ndim d = 2 \<and> shape d ! 1 \<noteq> 0 \<longrightarrow> (\<exists>t. Tree_init d ls = Inr t))"
  by (simp add: Tree_init_def root_rules_def Let_def)

theorem C9_dimension_check_witness:
  "Tree_init (NDArray [2, 2, 1] [1, 2, 3, 4]) [0, 1] = Inl ValueError \<and>
   (\<exists>t. Tree_init (NDArray [3] [1, 2, 3]) [7, 7, 7] = Inr t) \<and>
   (\<exists>t. Tree_init (NDArray [2, 3] [1, 2, 3, 4, 5, 6]) [0, 1, 1] = Inr t)"
proof -
  have h3: "2 < ndim (NDArray [2, 2, 1] [1, 2, 3, 4])" by (simp add: ndim_def)
  have h1: "ndim (NDArray [3] [1, 2, 3]) = 1 \<and> flat (NDArray [3] [1, 2, 3]) \<noteq> []"
    by (simp add: ndim_def)
  have h2: "ndim (NDArray [2, 3] [1, 2, 3, 4, 5, 6]) = 2
            \<and> shape (NDArray [2, 3] [1, 2, 3, 4, 5, 6]) ! 1 \<noteq> 0"
    by (simp add: ndim_def)
  from h3 C9_dimension_check [of "NDArray [2, 2, 1] [1, 2, 3, 4]" "[0, 1]"]
  have a: "Tree_init (NDArray [2, 2, 1] [1, 2, 3, 4]) [0, 1] = Inl ValueError" by blast
  from h1 C9_dimension_check [of "NDArray [3] [1, 2, 3]" "[7, 7, 7]"]
  have b: "\<exists>t. Tree_init (NDArray [3] [1, 2, 3]) [7, 7, 7] = Inr t" by blast
  from h2 C9_dimension_check [of "NDArray [2, 3] [1, 2, 3, 4, 5, 6]" "[0, 1, 1]"]
  have c: "\<exists>t. Tree_init (NDArray [2, 3] [1, 2, 3, 4, 5, 6]) [0, 1, 1] = Inr t" by blast
  from a b c show ?thesis by blast
qed

subsection \<open>A root that is a leaf\<close>

lemma siblings_loop_root:
  "\<forall>(k, n) \<in> set nd. left n \<noteq> Some 0 \<and> right n \<noteq> Some 0 \<and> (left n = right n \<longrightarrow> left n = None) \<Longrightarrow>
   \<forall>r. map_of nd 0 = Some r \<longrightarrow> parent r = None \<Longrightarrow>
   0 \<in> set nv \<Longrightarrow> siblings_loop nd nv sibs = Inl KeyError"
proof (induction nd nv sibs rule: siblings_loop.induct)
  case (1 nd siblings)
  then show ?case by simp
next
  case (2 nd curr rest siblings)
  note IH = "2.IH" and ptr = "2.prems"(1) and root = "2.prems"(2) and zero = "2.prems"(3)
  show ?case
  proof (cases "lookup nd (Some curr)")
    case (Inl e)
    then show ?thesis by (simp split: option.splits)
  next
    case leaf: (Inr leaf)
    show ?thesis
    proof (cases "lookup nd (parent leaf)")
      case (Inl e)
      then have "e = KeyError" by (rule lookup_Inl)
      with Inl leaf show ?thesis by simp
    next
      case par: (Inr par)
      have c0: "curr \<noteq> 0"
      proof
        assume "curr = 0"
        with leaf root have "parent leaf = None" by (auto split: option.splits)
        with par show False by simp
      qed
      with zero have z: "0 \<in> set rest" by simp
      from lookup_InrD [OF par] obtain k where kp: "(k, par) \<in> set nd" by blast
      with ptr have p0: "left par \<noteq> Some 0" "right par \<noteq> Some 0"
        and neq: "left par = right par \<Longrightarrow> left par = None" by auto
      let ?other = "if Some curr = left par then right par else left par"
      show ?thesis
      proof (cases ?other)
        case None
        with IH(1) [OF leaf par None ptr root z] leaf par show ?thesis by simp
      next
        case (Some oc)
        with p0 have oc0: "oc \<noteq> 0" by (auto split: if_splits)
        from Some neq have occ: "oc \<noteq> curr" by (auto split: if_splits)
        show ?thesis
        proof (cases "oc \<in> set rest")
          case True
          with z oc0 have "0 \<in> set (remove1 oc rest)" by auto
          from IH(2) [OF leaf par Some _ True ptr root this] True leaf par Some
          show ?thesis by simp
        next
          case False
          with occ have "oc \<notin> set (curr # rest)" by simp
          from IH(3) [OF leaf par Some this ptr root z] this leaf par Some
          show ?thesis by simp
        qed
      qed
    qed
  qed
qed

lemma tree_inv_no_zero_child:
  assumes "tree_inv t"
  shows "\<forall>(k, n) \<in> set (node_dict t).
           left n \<noteq> Some 0 \<and> right n \<noteq> Some 0 \<and> (left n = right n \<longrightarrow> left n = None)"
  using assms unfolding tree_inv_def node_ok_def by fastforce

lemma tree_inv_root:
  assumes "tree_inv t"
  shows "\<forall>r. map_of (node_dict t) 0 = Some r \<longrightarrow> parent r = None"
  using assms unfolding tree_inv_def by (auto split: option.splits)

text \<open>
  C10: when the root (identifier 0) is in \<open>leaf_inds\<close> of a well-formed tree,
  \<open>leaf_siblings\<close> raises \<^verbatim>\<open>KeyError\<close> at the lookup of the root's absent parent, and so do
  \<open>cut_useless_leaves\<close> and \<open>cost_complexity_seq\<close>, which call it first.
\<close>

theorem C10_root_leaf_raises:
  assumes "tree_inv t" and "0 \<in> set (leaf_inds t)"
  shows "leaf_siblings t = Inl KeyError \<and> cut_useless_leaves t = Inl KeyError \<and>
         cost_complexity_seq t = Some (Inl KeyError)"
proof -
  have "leaf_siblings t = Inl KeyError"
    unfolding leaf_siblings_def
    by (rule siblings_loop_root [OF tree_inv_no_zero_child [OF assms(1)]
          tree_inv_root [OF assms(1)] assms(2)])
  then show ?thesis by (simp add: cut_useless_leaves_def cost_complexity_seq_def)
qed

theorem C10_root_leaf_raises_witness:
  "tree_inv ex_single \<and> 0 \<in> set (leaf_inds ex_single) \<and>
   Tree_init (NDArray [3] [1, 2, 3]) [7, 7, 7] = Inr ex_single \<and>
   leaf_siblings ex_single = Inl KeyError \<and> cut_useless_leaves ex_single = Inl KeyError \<and>
   cost_complexity_seq ex_single = Some (Inl KeyError)"
proof -
  have h: "0 \<in> set (leaf_inds ex_single)" by (simp add: ex_single_def)
  from C10_root_leaf_raises [OF ex_single_inv h] h ex_single_inv ex_single_init
  show ?thesis by simp
qed

subsection \<open>Useless leaves\<close>

lemma flatten_simps [simp]:
  "flatten [] = []" "flatten (p # ps) = fst p # snd p # flatten ps"
  "flatten (xs @ ys) = flatten xs @ flatten ys"
  by (simp_all add: flatten_def)

lemma siblings_loop_props:
  "distinct nv \<Longrightarrow> siblings_loop nd nv acc = Inr res \<Longrightarrow>
   \<exists>new. res = acc @ new \<and> distinct (flatten new) \<and> set (flatten new) \<subseteq> set nv \<and>
     (\<forall>p \<in> set new. \<exists>leaf par. lookup nd (Some (fst p)) = Inr leaf \<and> lookup nd (parent leaf) = Inr par)"
proof (induction nd nv acc arbitrary: res rule: siblings_loop.induct)
  case (1 nd siblings)
  then show ?case by simp
next
  case (2 nd curr rest siblings)
  note IH = "2.IH" and dist = "2.prems"(1) and run = "2.prems"(2)
  from run obtain leaf where leaf: "lookup nd (Some curr) = Inr leaf"
    by (cases "lookup nd (Some curr)") auto
  from run leaf obtain par where par: "lookup nd (parent leaf) = Inr par"
    by (cases "lookup nd (parent leaf)") auto
  from dist have dr: "distinct rest" and cr: "curr \<notin> set rest" by auto
  let ?other = "if Some curr = left par then right par else left par"
  show ?case
  proof (cases ?other)
    case None
    with run leaf par have "siblings_loop nd rest siblings = Inr res" by simp
    from IH(1) [OF leaf par None dr this] show ?thesis by auto
  next
    case (Some oc)
    show ?thesis
    proof (cases "oc \<in> set (curr # rest)")
      case True
      with run leaf par Some have orest: "oc \<in> set rest"
        by (auto split: if_splits)
      with run leaf par Some True
      have r: "siblings_loop nd (remove1 oc rest) (siblings @ [(curr, oc)]) = Inr res" by simp
      from dr have "distinct (remove1 oc rest)" by simp
      from IH(2) [OF leaf par Some True orest this r]
      obtain new where n: "res = (siblings @ [(curr, oc)]) @ new" "distinct (flatten new)"
        "set (flatten new) \<subseteq> set (remove1 oc rest)"
        "\<forall>p \<in> set new. \<exists>leaf par. lookup nd (Some (fst p)) = Inr leaf \<and> lookup nd (parent leaf) = Inr par"
        by blast
      from n(3) dr have sub: "set (flatten new) \<subseteq> set rest - {oc}" by auto
      have "res = siblings @ ((curr, oc) # new)" using n(1) by simp
      moreover have "distinct (flatten ((curr, oc) # new))"
        using n(2) sub cr orest by auto
      moreover have "set (flatten ((curr, oc) # new)) \<subseteq> set (curr # rest)"
        using sub orest by auto
      moreover have "\<forall>p \<in> set ((curr, oc) # new). \<exists>leaf par. lookup nd (Some (fst p)) = Inr leaf \<and> lookup nd (parent leaf) = Inr par"
        using n(4) leaf par by auto
      ultimately show ?thesis by blast
    next
      case False
      with run leaf par Some have "siblings_loop nd rest siblings = Inr res" by simp
      from IH(3) [OF leaf par Some False dr this] show ?thesis by auto
    qed
  qed
qed

lemma mark_useless_result:
  "mark_useless nd sibs acc = Inr res \<Longrightarrow>
   res = acc @ flatten (filter (\<lambda>p. pair_useless nd p = Inr True) sibs)"
proof (induction sibs arbitrary: acc)
  case Nil
  then show ?case by simp
next
  case (Cons p sibs)
  show ?case
  proof (cases "pair_useless nd p")
    case (Inl e)
    with Cons.prems show ?thesis by simp
  next
    case (Inr u)
    show ?thesis
    proof (cases u)
      case True
      with Inr Cons.prems have "mark_useless nd sibs (acc @ [fst p, snd p]) = Inr res" by simp
      from Cons.IH [OF this] Inr True show ?thesis by simp
    next
      case False
      with Inr Cons.prems have "mark_useless nd sibs acc = Inr res" by simp
      from Cons.IH [OF this] Inr False show ?thesis by simp
    qed
  qed
qed

lemma mark_useless_total:
  "\<forall>p \<in> set sibs. \<exists>u. pair_useless nd p = Inr u \<Longrightarrow> \<exists>res. mark_useless nd sibs acc = Inr res"
proof (induction sibs arbitrary: acc)
  case Nil
  then show ?case by simp
next
  case (Cons p sibs)
  then show ?case by (cases "pair_useless nd p") auto
qed

lemma delete_eq_filter: "AList.delete k nd = filter (\<lambda>(k', n). k' \<noteq> k) nd"
  by (induction nd) auto

lemma delete_leaves_result:
  "distinct ls \<Longrightarrow> delete_leaves xs (nd, ls) = Inr (nd', ls') \<Longrightarrow>
   nd' = filter (\<lambda>(k, n). k \<notin> set xs) nd \<and> ls' = filter (\<lambda>k. k \<notin> set xs) ls"
proof (induction xs arbitrary: nd ls)
  case Nil
  then show ?case by simp
next
  case (Cons x xs)
  from Cons.prems(2) have r: "delete_leaves xs (AList.delete x nd, remove1 x ls) = Inr (nd', ls')"
    by (auto split: if_splits)
  from Cons.prems(1) have d: "distinct (remove1 x ls)" by simp
  from Cons.IH [OF d r] Cons.prems(1) show ?case
    by (auto simp: delete_eq_filter distinct_remove1_removeAll removeAll_filter_not_eq
        case_prod_unfold intro!: filter_cong)
qed

lemma delete_leaves_total:
  "distinct xs \<Longrightarrow> set xs \<subseteq> set (keys nd) \<Longrightarrow> set xs \<subseteq> set ls \<Longrightarrow>
   \<exists>r. delete_leaves xs (nd, ls) = Inr r"
proof (induction xs arbitrary: nd ls)
  case Nil
  then show ?case by simp
next
  case (Cons x xs)
  have "set xs \<subseteq> set (keys (AList.delete x nd))"
  proof
    fix y assume y: "y \<in> set xs"
    with Cons.prems have "y \<noteq> x" "y \<in> fst ` set nd" by (auto simp: keys_def)
    then show "y \<in> set (keys (AList.delete x nd))"
      by (force simp: keys_def delete_eq_filter)
  qed
  moreover have "set xs \<subseteq> set (remove1 x ls)"
  proof
    fix y assume y: "y \<in> set xs"
    with Cons.prems have "y \<noteq> x" "y \<in> set ls" by auto
    then show "y \<in> set (remove1 x ls)" by (simp add: in_set_remove1)
  qed
  ultimately obtain r where "delete_leaves xs (AList.delete x nd, remove1 x ls) = Inr r"
    using Cons.IH [of "AList.delete x nd" "remove1 x ls"] Cons.prems(1) by auto
  with Cons.prems show ?case by auto
qed


lemma tree_inv_leaf_key: "tree_inv t \<Longrightarrow> k \<in> set (leaf_inds t) \<Longrightarrow> \<exists>n. map_of (node_dict t) k = Some n"
  unfolding tree_inv_def childless_def keys_def
  by (auto simp: map_of_eq_Some_iff)

lemma pair_useless_equal_rate:
  assumes "lookup nd (Some (fst p)) = Inr c0" "lookup nd (parent c0) = Inr par"
    and "map_of nd (snd p) = Some c1"
    and "\<forall>(k, n) \<in> set nd. class_prob n \<noteq> []"
  shows "pair_useless nd p = Inr (equal_rate nd p)"
proof -
  from lookup_InrD [OF assms(1)] have c0: "map_of nd (fst p) = Some c0" "class_prob c0 \<noteq> []"
    using assms(4) by auto
  from lookup_InrD [OF assms(2)] have par: "class_prob par \<noteq> []" using assms(4) by auto
  from assms(3) have c1: "class_prob c1 \<noteq> []" using assms(4) by (auto dest: map_of_SomeD)
  show ?thesis
    using assms(1,2,3) c0 c1 par
    by (simp add: pair_useless_def equal_rate_def compute_error_rate_def)
qed

lemma map_of_filter_keep: "k \<notin> U \<Longrightarrow> map_of (filter (\<lambda>(k, n). k \<notin> U) nd) k = map_of nd k"
  by (induction nd) auto

lemma childless_filter:
  "childless (filter (\<lambda>(k, n). k \<notin> U) nd) = filter (\<lambda>k. k \<notin> U) (childless nd)"
  by (induction nd) (auto simp: childless_def)

lemma tree_inv_filter:
  assumes "tree_inv t" "0 \<notin> U"
  shows "tree_inv (t\<lparr>node_dict := filter (\<lambda>(k, n). k \<notin> U) (node_dict t),
                     leaf_inds := filter (\<lambda>k. k \<notin> U) (leaf_inds t)\<rparr>)"
proof -
  have 1: "distinct (keys (filter (\<lambda>(k, n). k \<notin> U) (node_dict t)))"
    using assms(1) unfolding tree_inv_def keys_def by (simp add: distinct_map_filter)
  have 2: "map_of (filter (\<lambda>(k, n). k \<notin> U) (node_dict t)) 0 = map_of (node_dict t) 0"
    using assms(2) by (rule map_of_filter_keep)
  have 3: "childless (filter (\<lambda>(k, n). k \<notin> U) (node_dict t)) = filter (\<lambda>k. k \<notin> U) (childless (node_dict t))"
    by (rule childless_filter)
  show ?thesis
    using assms(1) 1 unfolding tree_inv_def by (auto simp: 2 3)
qed


lemma flatten_filter_subset: "set (flatten (filter P sibs)) \<subseteq> set (flatten sibs)"
  by (induction sibs) auto

lemma flatten_filter_distinct: "distinct (flatten sibs) \<Longrightarrow> distinct (flatten (filter P sibs))"
proof (induction sibs)
  case Nil
  then show ?case by simp
next
  case (Cons p sibs)
  with flatten_filter_subset [of P sibs] show ?case by auto
qed

lemma cut_useless_leaves_result:
  assumes inv: "tree_inv t" and run: "cut_useless_leaves t = Inr (t', out)"
  shows "\<exists>sibs rm. leaf_siblings t = Inr sibs \<and>
           rm = flatten (filter (\<lambda>p. pair_useless (node_dict t) p = Inr True) sibs) \<and>
           set rm \<subseteq> set (leaf_inds t) \<and> 0 \<notin> set rm \<and>
           t' = t\<lparr>node_dict := filter (\<lambda>(k, n). k \<notin> set rm) (node_dict t),
                   leaf_inds := filter (\<lambda>k. k \<notin> set rm) (leaf_inds t)\<rparr> \<and>
           out = [SiblingsRemoved (length rm)]"
proof -
  from run obtain sibs where sibs: "leaf_siblings t = Inr sibs"
    by (cases "leaf_siblings t") (auto simp: cut_useless_leaves_def)
  from run sibs obtain rm where rm: "mark_useless (node_dict t) sibs [] = Inr rm"
    by (cases "mark_useless (node_dict t) sibs []") (auto simp: cut_useless_leaves_def)
  from run sibs rm obtain nd ls
    where del: "delete_leaves (rev (sort rm)) (node_dict t, leaf_inds t) = Inr (nd, ls)"
      and t': "t' = t\<lparr>node_dict := nd, leaf_inds := ls\<rparr>" "out = [SiblingsRemoved (length rm)]"
    by (cases "delete_leaves (rev (sort rm)) (node_dict t, leaf_inds t)")
       (auto simp: cut_useless_leaves_def)
  from inv have dl: "distinct (leaf_inds t)" by (simp add: tree_inv_def)
  from siblings_loop_props [OF dl sibs [unfolded leaf_siblings_def]]
  have sub: "set (flatten sibs) \<subseteq> set (leaf_inds t)" by auto
  have rm_eq: "rm = flatten (filter (\<lambda>p. pair_useless (node_dict t) p = Inr True) sibs)"
    using mark_useless_result [OF rm] by simp
  then have "set rm \<subseteq> set (flatten sibs)" by (simp add: flatten_filter_subset)
  with sub have rsub: "set rm \<subseteq> set (leaf_inds t)" by blast
  have z: "0 \<notin> set (leaf_inds t)"
  proof
    assume "0 \<in> set (leaf_inds t)"
    from siblings_loop_root [OF tree_inv_no_zero_child [OF inv] tree_inv_root [OF inv] this]
    have "leaf_siblings t = Inl KeyError" by (simp add: leaf_siblings_def)
    with sibs show False by simp
  qed
  from delete_leaves_result [OF dl del]
  have "nd = filter (\<lambda>(k, n). k \<notin> set rm) (node_dict t)" "ls = filter (\<lambda>k. k \<notin> set rm) (leaf_inds t)"
    by simp_all
  with t' sibs rm_eq rsub z show ?thesis by auto
qed

lemma cut_useless_leaves_inv:
  assumes "tree_inv t" "cut_useless_leaves t = Inr (t', out)"
  shows "tree_inv t'"
proof -
  from cut_useless_leaves_result [OF assms] obtain rm where
    "0 \<notin> set rm" "t' = t\<lparr>node_dict := filter (\<lambda>(k, n). k \<notin> set rm) (node_dict t),
                   leaf_inds := filter (\<lambda>k. k \<notin> set rm) (leaf_inds t)\<rparr>" by blast
  with tree_inv_filter [OF assms(1), of "set rm"] show ?thesis by simp
qed

text \<open>
  What the code does: on a well-formed tree whose nodes have class probabilities,
  \<open>cut_useless_leaves\<close> deletes from \<open>node_dict\<close> and from \<open>leaf_inds\<close> the two leaves of
  exactly those sibling pairs for which the parent's error rate equals half the sum of
  \<open>reach_prob\<close> times error rate of the two children, and reports the number of leaves
  deleted, two for each such pair.
\<close>

lemma cut_useless_leaves_half_sum:
  assumes inv: "tree_inv t" and sibs: "leaf_siblings t = Inr sibs"
    and hcp: "has_class_probs t"
  shows "\<exists>rm. rm = flatten (filter (equal_rate (node_dict t)) sibs) \<and>
           distinct rm \<and> length rm = 2 * length (filter (equal_rate (node_dict t)) sibs) \<and>
           cut_useless_leaves t =
             Inr (t\<lparr>node_dict := filter (\<lambda>(k, n). k \<notin> set rm) (node_dict t),
                    leaf_inds := filter (\<lambda>k. k \<notin> set rm) (leaf_inds t)\<rparr>,
                  [SiblingsRemoved (length rm)])"
proof -
  from hcp have cp: "\<forall>(k, n) \<in> set (node_dict t). class_prob n \<noteq> []"
    by (simp add: has_class_probs_def)
  from inv have dl: "distinct (leaf_inds t)" by (simp add: tree_inv_def)
  from siblings_loop_props [OF dl sibs [unfolded leaf_siblings_def]]
  have dist: "distinct (flatten sibs)" and sub: "set (flatten sibs) \<subseteq> set (leaf_inds t)"
    and look: "\<forall>p \<in> set sibs. \<exists>leaf par. lookup (node_dict t) (Some (fst p)) = Inr leaf
                   \<and> lookup (node_dict t) (parent leaf) = Inr par"
    by auto
  have pu: "pair_useless (node_dict t) p = Inr (equal_rate (node_dict t) p)" if "p \<in> set sibs" for p
  proof -
    from look that obtain leaf par where l: "lookup (node_dict t) (Some (fst p)) = Inr leaf"
      "lookup (node_dict t) (parent leaf) = Inr par" by blast
    from that sub have "snd p \<in> set (leaf_inds t)" by (auto simp: flatten_def)
    from tree_inv_leaf_key [OF inv this] obtain c1 where "map_of (node_dict t) (snd p) = Some c1" ..
    from pair_useless_equal_rate [OF l this cp] show ?thesis .
  qed
  let ?rm = "flatten (filter (equal_rate (node_dict t)) sibs)"
  from pu have "\<forall>p \<in> set sibs. \<exists>u. pair_useless (node_dict t) p = Inr u" by blast
  from mark_useless_total [OF this] obtain rm where rm: "mark_useless (node_dict t) sibs [] = Inr rm"
    by blast
  have "filter (\<lambda>p. pair_useless (node_dict t) p = Inr True) sibs = filter (equal_rate (node_dict t)) sibs"
    by (rule filter_cong) (auto simp: pu)
  with mark_useless_result [OF rm] have rm_eq: "rm = ?rm" by simp
  have drm: "distinct ?rm" using dist by (rule flatten_filter_distinct)
  have srm: "set ?rm \<subseteq> set (leaf_inds t)" using sub flatten_filter_subset by blast
  have len: "length ?rm = 2 * length (filter (equal_rate (node_dict t)) sibs)"
    by (induction sibs) auto
  have keys: "set (leaf_inds t) \<subseteq> set (keys (node_dict t))"
    using inv unfolding tree_inv_def childless_def keys_def by auto
  have "\<exists>r. delete_leaves (rev (sort ?rm)) (node_dict t, leaf_inds t) = Inr r"
    by (rule delete_leaves_total) (use drm srm keys in auto)
  then obtain nd ls where del: "delete_leaves (rev (sort ?rm)) (node_dict t, leaf_inds t) = Inr (nd, ls)"
    by (metis surj_pair)
  from delete_leaves_result [OF dl del]
  have "nd = filter (\<lambda>(k, n). k \<notin> set ?rm) (node_dict t)" "ls = filter (\<lambda>k. k \<notin> set ?rm) (leaf_inds t)"
    by simp_all
  with del rm rm_eq sibs have "cut_useless_leaves t =
             Inr (t\<lparr>node_dict := filter (\<lambda>(k, n). k \<notin> set ?rm) (node_dict t),
                    leaf_inds := filter (\<lambda>k. k \<notin> set ?rm) (leaf_inds t)\<rparr>,
                  [SiblingsRemoved (length ?rm)])"
    by (simp add: cut_useless_leaves_def)
  with drm len show ?thesis by blast
qed

lemma ex_cut_inv: "tree_inv ex_cut"
  by (simp add: tree_inv_def node_ok_def ex_cut_def keys_def childless_def Node_def ex_node_def)

lemma ex_cut_sibs: "leaf_siblings ex_cut = Inr [(1, 2)]"
  by (simp add: leaf_siblings_def ex_cut_def Node_def ex_node_def)

lemma ex_cut_rate: "equal_rate (node_dict ex_cut) (1, 2)"
  by (simp add: equal_rate_def ex_cut_def Node_def ex_node_def list_max_def)

lemma cut_useless_leaves_half_sum_ex:
  "tree_inv ex_cut \<and> leaf_siblings ex_cut = Inr [(1, 2)] \<and>
   has_class_probs ex_cut \<and>
   equal_rate (node_dict ex_cut) (1, 2) \<and>
   cut_useless_leaves ex_cut =
     Inr (ex_cut\<lparr>node_dict := [(0, ex_node 1 [3/4, 1/4] None (Some 1) (Some 2))], leaf_inds := []\<rparr>,
          [SiblingsRemoved 2])"
proof -
  have cp: "has_class_probs ex_cut"
    by (simp add: has_class_probs_def ex_cut_def Node_def ex_node_def)
  have nd: "node_dict ex_cut = [(0, ex_node 1 [3/4, 1/4] None (Some 1) (Some 2)),
                            (1, ex_node (1/2) [1/2, 1/2] (Some 0) None None),
                            (2, ex_node (1/2) [1/2, 1/2] (Some 0) None None)]"
     and li: "leaf_inds ex_cut = [1, 2]" by (simp_all add: ex_cut_def)
  from cut_useless_leaves_half_sum [OF ex_cut_inv ex_cut_sibs cp] ex_cut_rate
  have "cut_useless_leaves ex_cut =
     Inr (ex_cut\<lparr>node_dict := [(0, ex_node 1 [3/4, 1/4] None (Some 1) (Some 2))], leaf_inds := []\<rparr>,
          [SiblingsRemoved 2])"
    by (simp add: nd li)
  with ex_cut_inv ex_cut_sibs cp ex_cut_rate show ?thesis by blast
qed

subsection \<open>Passes of the growth loop\<close>

lemma tree_inv_alt:
  "tree_inv t \<longleftrightarrow>
     distinct (keys (node_dict t)) \<and> distinct (leaf_inds t) \<and>
     (\<exists>r. map_of (node_dict t) 0 = Some r \<and> parent r = None) \<and>
     (\<forall>k n. map_of (node_dict t) k = Some n \<longrightarrow> node_ok k n) \<and>
     set (leaf_inds t) = {k. \<exists>n. map_of (node_dict t) k = Some n \<and> left n = None \<and> right n = None}"
proof (cases "distinct (keys (node_dict t))")
  case False
  then show ?thesis by (simp add: tree_inv_def)
next
  case True
  then have d: "distinct (map fst (node_dict t))" by (simp add: keys_def)
  have a: "(\<forall>(k, n) \<in> set (node_dict t). node_ok k n) \<longleftrightarrow>
           (\<forall>k n. map_of (node_dict t) k = Some n \<longrightarrow> node_ok k n)"
    using d by auto
  have b: "set (childless (node_dict t)) =
           {k. \<exists>n. map_of (node_dict t) k = Some n \<and> left n = None \<and> right n = None}"
    using d by (auto simp: childless_def image_iff)
  show ?thesis
    unfolding tree_inv_def a b by (auto split: option.splits)
qed

lemma keys_map_of: "k \<in> set (keys nd) \<longleftrightarrow> (\<exists>n. map_of nd k = Some n)"
proof -
  have "k \<in> set (keys nd) \<longleftrightarrow> map_of nd k \<noteq> None"
    by (simp add: keys_def map_of_eq_None_iff)
  then show ?thesis by auto
qed

lemma map_of_split:
  "map_of (AList.update b rc (AList.update a lc (AList.map_entry i f nd))) =
   ((map_of nd)(i := map_option f (map_of nd i)))(a \<mapsto> lc, b \<mapsto> rc)"
  by (auto simp: AList.update_conv' map_of_map_entry fun_eq_iff split: option.splits)

lemma keys_split:
  "set (keys (AList.update b rc (AList.update a lc (AList.map_entry i f nd)))) = {a, b} \<union> set (keys nd)"
  by (auto simp: keys_def AList.dom_update dom_map_entry)

lemma distinct_split:
  "distinct (keys nd) \<Longrightarrow> distinct (keys (AList.update b rc (AList.update a lc (AList.map_entry i f nd))))"
  by (simp add: keys_def distinct_update distinct_map_entry)

lemma split_one_inv:
  assumes inv: "tree_inv u" and kb: "keys_below mk u" and i: "i \<in> set (leaf_inds u)"
    and lc: "left lc = None" "right lc = None" and rc: "left rc = None" "right rc = None"
  shows "tree_inv (split_one u i mk lc rc) \<and> keys_below (mk + 2) (split_one u i mk lc rc)"
proof -
  let ?m = "map_of (node_dict u)"
  from inv have d: "distinct (keys (node_dict u))" and dl: "distinct (leaf_inds u)"
    and root: "\<exists>r. ?m 0 = Some r \<and> parent r = None"
    and ok: "\<And>k n. ?m k = Some n \<Longrightarrow> node_ok k n"
    and leaves: "set (leaf_inds u) = {k. \<exists>n. ?m k = Some n \<and> left n = None \<and> right n = None}"
    unfolding tree_inv_alt by auto
  from i leaves obtain leaf where leaf: "?m i = Some leaf" by auto
  have below: "\<And>k n. ?m k = Some n \<Longrightarrow> k \<le> mk"
    using kb keys_map_of [of _ "node_dict u"] unfolding keys_below_def by blast
  from root below have mk0: "0 \<le> mk" by auto
  from below leaf have imk: "i \<le> mk" by auto
  have fresh: "?m (mk + 1) = None" "?m (mk + 2) = None"
    using below [of "mk + 1"] below [of "mk + 2"] by (cases "?m (mk + 1)", auto, cases "?m (mk + 2)", auto)
  let ?u' = "split_one u i mk lc rc"
  let ?m' = "map_of (node_dict ?u')"
  have m': "?m' = (?m(i \<mapsto> set_children (mk + 1) (mk + 2) leaf))(mk + 1 \<mapsto> lc, mk + 2 \<mapsto> rc)"
    unfolding split_one_def using leaf by (simp add: map_of_split)
  have 1: "distinct (keys (node_dict ?u'))"
    unfolding split_one_def using d by (simp add: distinct_split)
  have notin: "mk + 1 \<notin> set (leaf_inds u)" "mk + 2 \<notin> set (leaf_inds u)"
    using leaves fresh by auto
  have 2: "distinct (leaf_inds ?u')"
    unfolding split_one_def using dl notin by (auto dest: notin_set_remove1)
  have 3: "\<exists>r. ?m' 0 = Some r \<and> parent r = None"
    using root mk0 leaf unfolding m' by (auto simp: set_children_def)
  have 4: "node_ok k n" if "?m' k = Some n" for k n
  proof -
    from that have "((?m(i \<mapsto> set_children (mk + 1) (mk + 2) leaf))(mk + 1 \<mapsto> lc, mk + 2 \<mapsto> rc)) k = Some n"
      by (simp only: m')
    then consider "k = mk + 2" "n = rc" | "k = mk + 1" "n = lc" | "k = i" "n = set_children (mk + 1) (mk + 2) leaf"
      | "k \<noteq> i" "?m k = Some n"
      by (cases "k = mk + 2"; cases "k = mk + 1"; cases "k = i") auto
    then show ?thesis
    proof cases
      case 1 then show ?thesis using rc mk0 by (simp add: node_ok_def)
    next
      case 2 then show ?thesis using lc mk0 by (simp add: node_ok_def)
    next
      case 3 then show ?thesis using ok [OF leaf] imk by (simp add: node_ok_def set_children_def)
    next
      case 4 then show ?thesis using ok by simp
    qed
  qed
  have 5: "set (leaf_inds ?u') = {k. \<exists>n. ?m' k = Some n \<and> left n = None \<and> right n = None}"
  proof -
    have "set (leaf_inds ?u') = (set (leaf_inds u) - {i}) \<union> {mk + 1, mk + 2}"
      unfolding split_one_def using dl by auto
    also have "\<dots> = {k. \<exists>n. ?m' k = Some n \<and> left n = None \<and> right n = None}"
      unfolding m' leaves using lc rc fresh imk by (auto simp: set_children_def)
    finally show ?thesis .
  qed
  have 6: "keys_below (mk + 2) ?u'"
    using kb unfolding keys_below_def split_one_def by (auto simp: keys_split)
  from 1 2 3 4 5 6 show ?thesis unfolding tree_inv_alt [of ?u'] by blast
qed


lemma new_children_shape:
  assumes "new_children sp syms i leaf = Inr (lc, rc)"
  shows "left lc = None \<and> right lc = None \<and> left rc = None \<and> right rc = None \<and>
         parent lc = Some i \<and> parent rc = Some i"
  using assms unfolding new_children_def
  by (auto simp: Node_def Let_def split: prod.splits if_splits)

lemma remove_each_snoc:
  "remove_each (js @ [i]) xs =
     (case remove_each js xs of
        Inl e \<Rightarrow> Inl e
      | Inr L \<Rightarrow> if i \<in> set L then Inr (remove1 i L) else Inl ValueError)"
  by (induction js arbitrary: xs) auto

lemma split_leaf_step:
  assumes step: "\<And>u i leaf lc rc mk. P u \<Longrightarrow> tree_inv u \<Longrightarrow> keys_below mk u \<Longrightarrow>
            i \<in> set (leaf_inds u) \<Longrightarrow> map_of (node_dict u) i = Some leaf \<Longrightarrow> \<not> is_stopped leaf \<Longrightarrow>
            new_children sp (symbols u) i leaf = Inr (lc, rc) \<Longrightarrow> P (split_one u i mk lc rc)"
    and run: "split_leaf sp (symbols t) i (nd, mk, rem, add) = Inr s1"
    and L: "remove_each rem orig = Inr L" and iL: "i \<in> set L"
    and inv: "tree_inv (t\<lparr>node_dict := nd, leaf_inds := L @ add\<rparr>)"
    and kb: "keys_below mk (t\<lparr>node_dict := nd, leaf_inds := L @ add\<rparr>)"
    and P: "P (t\<lparr>node_dict := nd, leaf_inds := L @ add\<rparr>)"
  shows "\<exists>nd1 mk1 rem1 add1 L1. s1 = (nd1, mk1, rem1, add1) \<and> remove_each rem1 orig = Inr L1 \<and>
           set L - {i} \<subseteq> set L1 \<and>
           tree_inv (t\<lparr>node_dict := nd1, leaf_inds := L1 @ add1\<rparr>) \<and>
           keys_below mk1 (t\<lparr>node_dict := nd1, leaf_inds := L1 @ add1\<rparr>) \<and>
           P (t\<lparr>node_dict := nd1, leaf_inds := L1 @ add1\<rparr>)"
proof -
  let ?u = "t\<lparr>node_dict := nd, leaf_inds := L @ add\<rparr>"
  from run obtain leaf where leaf: "lookup nd (Some i) = Inr leaf"
    by (cases "lookup nd (Some i)") (auto simp: split_leaf_def)
  then have mleaf: "map_of (node_dict ?u) i = Some leaf" by (auto split: option.splits)
  show ?thesis
  proof (cases "is_stopped leaf")
    case True
    with run leaf have "s1 = (nd, mk, rem, add)" by (simp add: split_leaf_def)
    with L inv kb P show ?thesis by auto
  next
    case False
    with run leaf obtain lc rc where nc: "new_children sp (symbols t) i leaf = Inr (lc, rc)"
      by (cases "new_children sp (symbols t) i leaf") (auto simp: split_leaf_def)
    with run leaf False have s1: "s1 = (AList.update (mk + 2) rc (AList.update (mk + 1) lc
                         (AList.map_entry i (set_children (mk + 1) (mk + 2)) nd)),
                       mk + 2, rem @ [i], add @ [mk + 1, mk + 2])"
      by (simp add: split_leaf_def)
    have iu: "i \<in> set (leaf_inds ?u)" using iL by simp
    have so: "split_one ?u i mk lc rc =
           t\<lparr>node_dict := AList.update (mk + 2) rc (AList.update (mk + 1) lc
                         (AList.map_entry i (set_children (mk + 1) (mk + 2)) nd)),
             leaf_inds := remove1 i L @ (add @ [mk + 1, mk + 2])\<rparr>"
      using iL by (simp add: split_one_def remove1_append)
    from new_children_shape [OF nc]
    have sh: "left lc = None" "right lc = None" "left rc = None" "right rc = None" by auto
    from split_one_inv [OF inv kb iu sh]
    have inv': "tree_inv (split_one ?u i mk lc rc)" "keys_below (mk + 2) (split_one ?u i mk lc rc)"
      by auto
    have "new_children sp (symbols ?u) i leaf = Inr (lc, rc)" using nc by simp
    from step [OF P inv kb iu mleaf False this] have P': "P (split_one ?u i mk lc rc)" .
    have L1: "remove_each (rem @ [i]) orig = Inr (remove1 i L)"
      using L iL by (simp add: remove_each_snoc)
    have "set L - {i} \<subseteq> set (remove1 i L)"
    proof
      fix x assume "x \<in> set L - {i}"
      then have "x \<noteq> i" "x \<in> set L" by auto
      then show "x \<in> set (remove1 i L)" by (simp add: in_set_remove1)
    qed
    with s1 L1 inv' P' so show ?thesis by auto
  qed
qed


lemma split_leaves_rule:
  assumes step: "\<And>u i leaf lc rc mk. P u \<Longrightarrow> tree_inv u \<Longrightarrow> keys_below mk u \<Longrightarrow>
            i \<in> set (leaf_inds u) \<Longrightarrow> map_of (node_dict u) i = Some leaf \<Longrightarrow> \<not> is_stopped leaf \<Longrightarrow>
            new_children sp (symbols u) i leaf = Inr (lc, rc) \<Longrightarrow> P (split_one u i mk lc rc)"
  shows "split_leaves sp (symbols t) todo (nd, mk, rem, add) = Inr (nd', mk', rem', add') \<Longrightarrow>
         remove_each rem orig = Inr L \<Longrightarrow> distinct todo \<Longrightarrow> set todo \<subseteq> set L \<Longrightarrow>
         tree_inv (t\<lparr>node_dict := nd, leaf_inds := L @ add\<rparr>) \<Longrightarrow>
         keys_below mk (t\<lparr>node_dict := nd, leaf_inds := L @ add\<rparr>) \<Longrightarrow>
         P (t\<lparr>node_dict := nd, leaf_inds := L @ add\<rparr>) \<Longrightarrow>
         \<exists>L'. remove_each rem' orig = Inr L' \<and>
              tree_inv (t\<lparr>node_dict := nd', leaf_inds := L' @ add'\<rparr>) \<and>
              keys_below mk' (t\<lparr>node_dict := nd', leaf_inds := L' @ add'\<rparr>) \<and>
              P (t\<lparr>node_dict := nd', leaf_inds := L' @ add'\<rparr>)"
proof (induction todo arbitrary: nd mk rem add L)
  case Nil
  then show ?case by auto
next
  case (Cons i todo)
  from Cons.prems(1) obtain s1 where s1: "split_leaf sp (symbols t) i (nd, mk, rem, add) = Inr s1"
    and rest: "split_leaves sp (symbols t) todo s1 = Inr (nd', mk', rem', add')"
    by (cases "split_leaf sp (symbols t) i (nd, mk, rem, add)") auto
  from Cons.prems(3,4) have iL: "i \<in> set L" and it: "i \<notin> set todo" and dt: "distinct todo"
    and sub: "set todo \<subseteq> set L" by auto
  have "\<exists>nd1 mk1 rem1 add1 L1. s1 = (nd1, mk1, rem1, add1) \<and> remove_each rem1 orig = Inr L1 \<and>
           set L - {i} \<subseteq> set L1 \<and>
           tree_inv (t\<lparr>node_dict := nd1, leaf_inds := L1 @ add1\<rparr>) \<and>
           keys_below mk1 (t\<lparr>node_dict := nd1, leaf_inds := L1 @ add1\<rparr>) \<and>
           P (t\<lparr>node_dict := nd1, leaf_inds := L1 @ add1\<rparr>)"
    by (rule split_leaf_step [where P = P, OF _ s1 Cons.prems(2) iL Cons.prems(5,6,7)]) (rule step)
  then obtain nd1 mk1 rem1 add1 L1 where 1: "s1 = (nd1, mk1, rem1, add1)" "remove_each rem1 orig = Inr L1"
    "set L - {i} \<subseteq> set L1"
    "tree_inv (t\<lparr>node_dict := nd1, leaf_inds := L1 @ add1\<rparr>)"
    "keys_below mk1 (t\<lparr>node_dict := nd1, leaf_inds := L1 @ add1\<rparr>)"
    "P (t\<lparr>node_dict := nd1, leaf_inds := L1 @ add1\<rparr>)"
    by blast
  from sub it 1(3) have "set todo \<subseteq> set L1" by auto
  from Cons.IH [OF rest [unfolded 1(1)] 1(2) dt this 1(4,5,6)] show ?case .
qed

lemma fit_pass_rule:
  assumes step: "\<And>u i leaf lc rc mk. P u \<Longrightarrow> tree_inv u \<Longrightarrow> keys_below mk u \<Longrightarrow>
            i \<in> set (leaf_inds u) \<Longrightarrow> map_of (node_dict u) i = Some leaf \<Longrightarrow> \<not> is_stopped leaf \<Longrightarrow>
            new_children sp (symbols u) i leaf = Inr (lc, rc) \<Longrightarrow> P (split_one u i mk lc rc)"
    and run: "fit_pass sp mk t = Inr (mk', t')"
    and inv: "tree_inv t" and kb: "keys_below mk t" and P: "P t"
  shows "tree_inv t' \<and> keys_below mk' t' \<and> P t'"
proof -
  from run obtain nd' rem' add' where
    sl: "split_leaves sp (symbols t) (leaf_inds t) (node_dict t, mk, [], []) = Inr (nd', mk', rem', add')"
    by (cases "split_leaves sp (symbols t) (leaf_inds t) (node_dict t, mk, [], [])")
       (auto simp: fit_pass_def split: sum.splits)
  have t: "t\<lparr>node_dict := node_dict t, leaf_inds := leaf_inds t @ []\<rparr> = t" by simp
  from inv have d: "distinct (leaf_inds t)" by (simp add: tree_inv_def)
  have "\<exists>L'. remove_each rem' (leaf_inds t) = Inr L' \<and>
              tree_inv (t\<lparr>node_dict := nd', leaf_inds := L' @ add'\<rparr>) \<and>
              keys_below mk' (t\<lparr>node_dict := nd', leaf_inds := L' @ add'\<rparr>) \<and>
              P (t\<lparr>node_dict := nd', leaf_inds := L' @ add'\<rparr>)"
  proof (rule split_leaves_rule [where P = P and L = "leaf_inds t" and orig = "leaf_inds t", OF _ sl])
    show "remove_each [] (leaf_inds t) = Inr (leaf_inds t)" by simp
    show "distinct (leaf_inds t)" by (rule d)
    show "set (leaf_inds t) \<subseteq> set (leaf_inds t)" by simp
    show "tree_inv (t\<lparr>node_dict := node_dict t, leaf_inds := leaf_inds t @ []\<rparr>)"
      using inv by (simp add: t)
    show "keys_below mk (t\<lparr>node_dict := node_dict t, leaf_inds := leaf_inds t @ []\<rparr>)"
      using kb by (simp add: t)
    show "P (t\<lparr>node_dict := node_dict t, leaf_inds := leaf_inds t @ []\<rparr>)"
      using P by (simp add: t)
  qed (rule step)
  then obtain L' where L': "remove_each rem' (leaf_inds t) = Inr L'"
    and r: "tree_inv (t\<lparr>node_dict := nd', leaf_inds := L' @ add'\<rparr>)"
      "keys_below mk' (t\<lparr>node_dict := nd', leaf_inds := L' @ add'\<rparr>)"
      "P (t\<lparr>node_dict := nd', leaf_inds := L' @ add'\<rparr>)" by blast
  from run sl L' have "t' = t\<lparr>node_dict := nd', leaf_inds := L' @ add'\<rparr>"
    by (simp add: fit_pass_def)
  with r show ?thesis by simp
qed

lemma fit_loop_rule:
  assumes step: "\<And>u i leaf lc rc mk. P u \<Longrightarrow> tree_inv u \<Longrightarrow> keys_below mk u \<Longrightarrow>
            i \<in> set (leaf_inds u) \<Longrightarrow> map_of (node_dict u) i = Some leaf \<Longrightarrow> \<not> is_stopped leaf \<Longrightarrow>
            new_children sp (symbols u) i leaf = Inr (lc, rc) \<Longrightarrow> P (split_one u i mk lc rc)"
    and run: "fit_loop sp mk t = Some (Inr t')"
    and inv: "tree_inv t" and kb: "keys_below mk t" and P: "P t"
  shows "tree_inv t' \<and> P t' \<and> check_full_stopped t' = Inr True"
proof -
  let ?Q = "\<lambda>sp' mk t (r :: error + tree). sp' = sp \<longrightarrow> (\<forall>t'. r = Inr t' \<longrightarrow> tree_inv t \<longrightarrow> keys_below mk t \<longrightarrow> P t \<longrightarrow>
         tree_inv t' \<and> P t' \<and> check_full_stopped t' = Inr True)"
  have "?Q sp mk t (Inr t')"
  proof (rule fit_loop.raw_induct [where P = ?Q, OF _ run])
    fix f sp' mk t r
    assume IH: "\<And>sp' mk t r. f sp' mk t = Some r \<Longrightarrow> ?Q sp' mk t r"
      and eq: "(case check_full_stopped t of
          Inl e \<Rightarrow> Some (Inl e)
        | Inr stopped \<Rightarrow>
            if stopped then Some (Inr t)
            else (case fit_pass sp' mk t of
                    Inl e \<Rightarrow> Some (Inl e)
                  | Inr (max_key', t') \<Rightarrow> f sp' max_key' t')) = Some r"
    show "?Q sp' mk t r"
    proof (intro impI allI)
      fix t'
      assume sp: "sp' = sp" and r: "r = Inr t'" and inv: "tree_inv t" and kb: "keys_below mk t" and P: "P t"
      show "tree_inv t' \<and> P t' \<and> check_full_stopped t' = Inr True"
      proof (cases "check_full_stopped t")
        case (Inl e)
        with eq r show ?thesis by simp
      next
        case (Inr stopped)
        show ?thesis
        proof (cases stopped)
          case True
          with eq r Inr inv P show ?thesis by simp
        next
          case False
          with eq Inr r sp obtain mk1 t1 where fp: "fit_pass sp mk t = Inr (mk1, t1)"
            and f: "f sp mk1 t1 = Some (Inr t')"
            by (cases "fit_pass sp mk t") auto
          have "tree_inv t1 \<and> keys_below mk1 t1 \<and> P t1"
            by (rule fit_pass_rule [where P = P, OF _ fp inv kb P]) (rule step)
          then have "tree_inv t1" "keys_below mk1 t1" "P t1" by auto
          with IH [OF f] show ?thesis by simp
        qed
      qed
    qed
  qed
  with inv kb P show ?thesis by simp
qed


lemma fit_iter_rule:
  assumes step: "\<And>u i leaf lc rc mk. P u \<Longrightarrow> tree_inv u \<Longrightarrow> keys_below mk u \<Longrightarrow>
            i \<in> set (leaf_inds u) \<Longrightarrow> map_of (node_dict u) i = Some leaf \<Longrightarrow> \<not> is_stopped leaf \<Longrightarrow>
            new_children sp (symbols u) i leaf = Inr (lc, rc) \<Longrightarrow> P (split_one u i mk lc rc)"
  shows "fit_iter sp n mk t = Inr (mk', t') \<Longrightarrow> tree_inv t \<Longrightarrow> keys_below mk t \<Longrightarrow> P t \<Longrightarrow>
         tree_inv t' \<and> P t'"
proof (induction n arbitrary: mk t)
  case 0
  then show ?case by simp
next
  case (Suc n)
  show ?case
  proof (cases "check_full_stopped t")
    case (Inl e)
    with Suc.prems show ?thesis by simp
  next
    case (Inr stopped)
    show ?thesis
    proof (cases stopped)
      case True
      with Suc.prems Inr show ?thesis by simp
    next
      case False
      with Suc.prems(1) Inr obtain mk1 t1 where fp: "fit_pass sp mk t = Inr (mk1, t1)"
        and it: "fit_iter sp n mk1 t1 = Inr (mk', t')"
        by (cases "fit_pass sp mk t") auto
      have "tree_inv t1 \<and> keys_below mk1 t1 \<and> P t1"
        by (rule fit_pass_rule [where P = P, OF _ fp Suc.prems(2,3,4)]) (rule step)
      with Suc.IH [OF it] show ?thesis by simp
    qed
  qed
qed

lemma Tree_init_shape:
  assumes "Tree_init d ls = Inr t"
  shows "\<exists>rs. t = \<lparr>node_dict = [(0, Node d ls (length (np_unique ls) = 1) 1
                                   (class_priors (np_unique ls) ls) rs None)],
                    leaf_inds = [0], symbols = np_unique ls\<rparr>"
  using assms by (auto simp: Tree_init_def Let_def split: sum.splits)

lemma Tree_init_inv:
  assumes "Tree_init d ls = Inr t"
  shows "tree_inv t \<and> keys_below (Max (set (keys (node_dict t)))) t"
proof -
  from Tree_init_shape [OF assms] obtain rs where
    "t = \<lparr>node_dict = [(0, Node d ls (length (np_unique ls) = 1) 1
                                   (class_priors (np_unique ls) ls) rs None)],
                    leaf_inds = [0], symbols = np_unique ls\<rparr>" ..
  then show ?thesis
    by (simp add: tree_inv_def node_ok_def keys_def childless_def Node_def keys_below_def)
qed

lemma keys_below_Max: "keys_below (Max (set (keys (node_dict t)))) t"
  by (simp add: keys_below_def)

lemma fit_full_tree_rule:
  assumes step: "\<And>u i leaf lc rc mk. P u \<Longrightarrow> tree_inv u \<Longrightarrow> keys_below mk u \<Longrightarrow>
            i \<in> set (leaf_inds u) \<Longrightarrow> map_of (node_dict u) i = Some leaf \<Longrightarrow> \<not> is_stopped leaf \<Longrightarrow>
            new_children sp (symbols u) i leaf = Inr (lc, rc) \<Longrightarrow> P (split_one u i mk lc rc)"
    and run: "fit_full_tree sp t = Some (Inr t')"
    and inv: "tree_inv t" and P: "P t"
  shows "tree_inv t' \<and> P t' \<and> check_full_stopped t' = Inr True"
proof -
  from run have fl: "fit_loop sp (Max (set (keys (node_dict t)))) t = Some (Inr t')"
    by (auto simp: fit_full_tree_def split: if_splits)
  show ?thesis
    by (rule fit_loop_rule [where P = P, OF _ fl inv keys_below_Max P]) (rule step)
qed

subsection \<open>Reach probabilities\<close>

lemma new_children_reach:
  assumes nc: "new_children sp syms i leaf = Inr (lc, rc)" and probs: "branch_probs_sum_one sp"
  shows "reach_prob lc + reach_prob rc = reach_prob leaf"
proof -
  obtain thetas scores where sf: "split_features sp leaf = (thetas, scores)"
    by (cases "split_features sp leaf")
  let ?sel = "argmin_by (<) scores"
  obtain lp rp pl pr where cp: "compute_probs_KDE sp leaf syms (thetas ! ?sel) ?sel = (lp, rp, pl, pr)"
    by (cases "compute_probs_KDE sp leaf syms (thetas ! ?sel) ?sel") auto
  from probs [unfolded branch_probs_sum_one_def, rule_format, of leaf syms "thetas ! ?sel" ?sel] cp
  have one: "pl + pr = 1" by simp
  from nc sf cp have "reach_prob lc = pl * reach_prob leaf" "reach_prob rc = pr * reach_prob leaf"
    by (auto simp: new_children_def Node_def Let_def split: prod.splits if_splits)
  then have "reach_prob lc + reach_prob rc = (pl + pr) * reach_prob leaf"
    by (simp add: distrib_right)
  with one show ?thesis by simp
qed

lemma split_one_reach:
  assumes inv: "tree_inv u" and kb: "keys_below mk u" and i: "i \<in> set (leaf_inds u)"
    and leaf: "map_of (node_dict u) i = Some leaf"
    and sum: "reach_prob lc + reach_prob rc = reach_prob leaf"
  shows "leaf_reach_sum (split_one u i mk lc rc) = leaf_reach_sum u"
proof -
  let ?m = "map_of (node_dict u)"
  let ?u' = "split_one u i mk lc rc"
  from inv have dl: "distinct (leaf_inds u)"
    and leaves: "set (leaf_inds u) = {k. \<exists>n. ?m k = Some n \<and> left n = None \<and> right n = None}"
    unfolding tree_inv_alt by auto
  have below: "\<And>k n. ?m k = Some n \<Longrightarrow> k \<le> mk"
    using kb keys_map_of [of _ "node_dict u"] unfolding keys_below_def by blast
  have m': "map_of (node_dict ?u') = (?m(i \<mapsto> set_children (mk + 1) (mk + 2) leaf))(mk + 1 \<mapsto> lc, mk + 2 \<mapsto> rc)"
    unfolding split_one_def using leaf by (simp add: map_of_split)
  have same: "reach_of (node_dict ?u') k = reach_of (node_dict u) k" if "k \<in> set (remove1 i (leaf_inds u))" for k
  proof -
    from that dl have "k \<noteq> i" "k \<in> set (leaf_inds u)" by auto
    with leaves below have "k \<le> mk" by auto
    with \<open>k \<noteq> i\<close> show ?thesis by (simp add: reach_of_def m')
  qed
  have "leaf_reach_sum ?u' = sum_list (map (reach_of (node_dict ?u')) (remove1 i (leaf_inds u)))
          + reach_of (node_dict ?u') (mk + 1) + reach_of (node_dict ?u') (mk + 2)"
    by (simp add: leaf_reach_sum_def split_one_def)
  also have "sum_list (map (reach_of (node_dict ?u')) (remove1 i (leaf_inds u)))
           = sum_list (map (reach_of (node_dict u)) (remove1 i (leaf_inds u)))"
    by (rule arg_cong [where f = sum_list], rule map_cong [OF refl]) (rule same)
  also have "reach_of (node_dict ?u') (mk + 1) = reach_prob lc" by (simp add: reach_of_def m')
  also have "reach_of (node_dict ?u') (mk + 2) = reach_prob rc" by (simp add: reach_of_def m')
  also have "sum_list (map (reach_of (node_dict u)) (remove1 i (leaf_inds u))) + reach_prob lc + reach_prob rc
           = reach_of (node_dict u) i + sum_list (map (reach_of (node_dict u)) (remove1 i (leaf_inds u)))"
    using sum leaf by (simp add: reach_of_def)
  also have "\<dots> = leaf_reach_sum u"
    unfolding leaf_reach_sum_def using i by (simp add: sum_list_map_remove1)
  finally show ?thesis .
qed

text \<open>
  C7: the root of a constructed tree has \<open>reach_prob\<close> 1; if the two branch probabilities
  of the collaborator sum to 1, the two children of every split have reach probabilities
  that sum to the parent's, and the sum of \<open>reach_prob\<close> over \<open>leaf_inds\<close> is 1 after every
  pass of the growth loop and in the tree that \<open>fit_full_tree\<close> returns. (Arithmetic is
  exact, see the conventions.)
\<close>

theorem C7_reach_prob_conserved:
  assumes init: "Tree_init d ls = Inr t" and probs: "branch_probs_sum_one sp"
  shows "reach_of (node_dict t) 0 = 1 \<and> leaf_reach_sum t = 1 \<and>
     (\<forall>syms i leaf lc rc. new_children sp syms i leaf = Inr (lc, rc) \<longrightarrow>
          reach_prob lc + reach_prob rc = reach_prob leaf) \<and>
     (\<forall>n mk' t'. fit_iter sp n (Max (set (keys (node_dict t)))) t = Inr (mk', t') \<longrightarrow>
          leaf_reach_sum t' = 1) \<and>
     (\<forall>t'. fit_full_tree sp t = Some (Inr t') \<longrightarrow> leaf_reach_sum t' = 1)"
proof -
  let ?P = "\<lambda>u. leaf_reach_sum u = 1"
  have step: "?P (split_one u i mk lc rc)"
    if "?P u" "tree_inv u" "keys_below mk u" "i \<in> set (leaf_inds u)"
      "map_of (node_dict u) i = Some leaf" "\<not> is_stopped leaf"
      "new_children sp (symbols u) i leaf = Inr (lc, rc)" for u i leaf lc rc mk
    using split_one_reach [OF that(2,3,4,5) new_children_reach [OF that(7) probs]] that(1) by simp
  from Tree_init_shape [OF init] have r0: "reach_of (node_dict t) 0 = 1" and P0: "?P t"
    by (auto simp: reach_of_def leaf_reach_sum_def Node_def)
  from Tree_init_inv [OF init] have inv: "tree_inv t" by simp
  have a: "leaf_reach_sum t' = 1" if "fit_iter sp n (Max (set (keys (node_dict t)))) t = Inr (mk', t')" for n mk' t'
  proof -
    have "tree_inv t' \<and> ?P t'"
      by (rule fit_iter_rule [where P = ?P, OF _ that inv keys_below_Max P0]) (rule step)
    then show ?thesis by simp
  qed
  have b: "leaf_reach_sum t' = 1" if "fit_full_tree sp t = Some (Inr t')" for t'
  proof -
    have "tree_inv t' \<and> ?P t' \<and> check_full_stopped t' = Inr True"
      by (rule fit_full_tree_rule [where P = ?P, OF _ that inv P0]) (rule step)
    then show ?thesis by simp
  qed
  from r0 P0 a b new_children_reach [OF _ probs] show ?thesis by blast
qed

lemma ex_two_init: "Tree_init (NDArray [2] [1, 2]) [0, 1] = Inr ex_two"
  by (simp add: Tree_init_def ex_two_def root_rules_def ndim_def np_unique_def
      class_priors_def list_min_def list_max_def Let_def)

lemma ex_collab_probs: "branch_probs_sum_one ex_collab"
  by (simp add: branch_probs_sum_one_def ex_collab_def)

lemma ex_two_fit: "fit_full_tree ex_collab ex_two = Some (Inr ex_two_grown)"
  by (simp add: fit_full_tree_def fit_loop.simps check_full_stopped_def fit_pass_def
      split_leaf_def new_children_def ex_two_def ex_two_grown_def ex_collab_def keys_def
      Node_def set_children_def np_unique_def Let_def)

theorem C7_reach_prob_conserved_witness:
  "Tree_init (NDArray [2] [1, 2]) [0, 1] = Inr ex_two \<and> branch_probs_sum_one ex_collab \<and>
   fit_full_tree ex_collab ex_two = Some (Inr ex_two_grown) \<and>
   leaf_reach_sum ex_two = 1 \<and> leaf_reach_sum ex_two_grown = 1"
  using C7_reach_prob_conserved [OF ex_two_init ex_collab_probs] ex_two_init ex_collab_probs ex_two_fit
  by blast

subsection \<open>Termination of growth\<close>

lemma new_children_stopped:
  assumes "new_children sp syms i leaf = Inr (lc, rc)"
  shows "(is_stopped lc \<longleftrightarrow> length (np_unique (labels lc)) = 1) \<and>
         (is_stopped rc \<longleftrightarrow> length (np_unique (labels rc)) = 1)"
  using assms unfolding new_children_def
  by (auto simp: Node_def Let_def split: prod.splits if_splits)

lemma np_unique_nonempty: "ls \<noteq> [] \<Longrightarrow> 0 < length (np_unique ls)"
  by (cases ls) (auto simp: np_unique_def)

lemma length_update_fresh:
  "k \<notin> fst ` set al \<Longrightarrow> length (AList.update k v al) = Suc (length al)"
  by (induction al) auto

lemma length_split_dict:
  assumes "i \<in> set (keys nd)" "a \<notin> set (keys nd)" "b \<notin> set (keys nd)" "a \<noteq> b"
  shows "length (AList.update b rc (AList.update a lc (AList.map_entry i f nd))) = length nd + 2"
proof -
  have k: "fst ` set (AList.map_entry i f nd) = set (keys nd)"
    by (simp add: dom_map_entry keys_def)
  have l: "length (AList.map_entry i f nd) = length nd" by (induction nd) auto
  have "length (AList.update a lc (AList.map_entry i f nd)) = length nd + 1"
    using assms(2) k l by (simp add: length_update_fresh)
  moreover have "b \<notin> fst ` set (AList.update a lc (AList.map_entry i f nd))"
    using assms(3,4) k by (simp add: AList.dom_update)
  ultimately show ?thesis by (simp add: length_update_fresh)
qed

lemma split_one_labels:
  assumes inv: "tree_inv u" and kb: "keys_below mk u" and i: "i \<in> set (leaf_inds u)"
    and leaf: "map_of (node_dict u) i = Some leaf"
    and lc: "labels lc \<noteq> []" "is_stopped lc \<longleftrightarrow> length (np_unique (labels lc)) = 1"
    and rc: "labels rc \<noteq> []" "is_stopped rc \<longleftrightarrow> length (np_unique (labels rc)) = 1"
    and len: "length (labels lc) + length (labels rc) = length (labels leaf)"
    and P: "labels_inv n syms u"
  shows "labels_inv n syms (split_one u i mk lc rc)"
proof -
  let ?m = "map_of (node_dict u)"
  let ?u' = "split_one u i mk lc rc"
  from inv have dl: "distinct (leaf_inds u)"
    and leaves: "set (leaf_inds u) = {k. \<exists>n. ?m k = Some n \<and> left n = None \<and> right n = None}"
    unfolding tree_inv_alt by auto
  have below: "\<And>k n. ?m k = Some n \<Longrightarrow> k \<le> mk"
    using kb keys_map_of [of _ "node_dict u"] unfolding keys_below_def by blast
  have m': "map_of (node_dict ?u') = (?m(i \<mapsto> set_children (mk + 1) (mk + 2) leaf))(mk + 1 \<mapsto> lc, mk + 2 \<mapsto> rc)"
    unfolding split_one_def using leaf by (simp add: map_of_split)
  have li: "leaf_inds ?u' = remove1 i (leaf_inds u) @ [mk + 1, mk + 2]" by (simp add: split_one_def)
  have old: "k \<noteq> i \<and> k \<le> mk \<and> k \<in> set (leaf_inds u)" if "k \<in> set (remove1 i (leaf_inds u))" for k
  proof -
    from that dl have "k \<noteq> i" "k \<in> set (leaf_inds u)" by auto
    with leaves below show ?thesis by auto
  qed
  have 1: "symbols ?u' = syms" using P by (simp add: labels_inv_def split_one_def)
  have 2: "labels n' \<noteq> [] \<and> (is_stopped n' \<longleftrightarrow> length (np_unique (labels n')) = 1)"
    if "k \<in> set (leaf_inds ?u')" "map_of (node_dict ?u') k = Some n'" for k n'
  proof -
    from that(1) consider "k = mk + 1" | "k = mk + 2" | "k \<in> set (remove1 i (leaf_inds u))"
      by (auto simp: li)
    then show ?thesis
    proof cases
      case 1 with that(2) lc show ?thesis by (simp add: m')
    next
      case 2 with that(2) rc show ?thesis by (simp add: m')
    next
      case 3
      from old [OF 3] that(2) have "?m k = Some n'" "k \<in> set (leaf_inds u)" by (auto simp: m')
      with P show ?thesis unfolding labels_inv_def by blast
    qed
  qed
  have same: "length (labels_of (node_dict ?u') k) = length (labels_of (node_dict u) k)"
    if "k \<in> set (remove1 i (leaf_inds u))" for k
    using old [OF that] by (simp add: labels_of_def m')
  have "label_count ?u' = sum_list (map (\<lambda>k. length (labels_of (node_dict ?u') k)) (remove1 i (leaf_inds u)))
          + length (labels lc) + length (labels rc)"
    by (simp add: label_count_def li labels_of_def m')
  also have "sum_list (map (\<lambda>k. length (labels_of (node_dict ?u') k)) (remove1 i (leaf_inds u)))
           = sum_list (map (\<lambda>k. length (labels_of (node_dict u) k)) (remove1 i (leaf_inds u)))"
    by (rule arg_cong [where f = sum_list], rule map_cong [OF refl]) (rule same)
  also have "\<dots> + length (labels lc) + length (labels rc)
           = length (labels_of (node_dict u) i) + sum_list (map (\<lambda>k. length (labels_of (node_dict u) k)) (remove1 i (leaf_inds u)))"
    using len leaf by (simp add: labels_of_def)
  also have "\<dots> = label_count u"
    unfolding label_count_def using i by (simp add: sum_list_map_remove1)
  finally have 3: "label_count ?u' = n" using P by (simp add: labels_inv_def)
  have ik: "i \<in> set (keys (node_dict u))" using leaf by (simp add: keys_map_of)
  have fr: "mk + 1 \<notin> set (keys (node_dict u))" "mk + 2 \<notin> set (keys (node_dict u))"
    using kb unfolding keys_below_def by auto
  have "length (node_dict ?u') = length (node_dict u) + 2"
    unfolding split_one_def using length_split_dict [OF ik fr] by simp
  moreover have "length (leaf_inds ?u') = length (leaf_inds u) + 1"
    using i by (simp add: li length_remove1) (cases "leaf_inds u", auto)
  ultimately have 4: "length (node_dict ?u') + 1 = 2 * length (leaf_inds ?u')"
    using P by (simp add: labels_inv_def)
  from 1 2 3 4 show ?thesis unfolding labels_inv_def by blast
qed

lemma length_le_sum_list:
  "\<forall>x \<in> set xs. 1 \<le> f x \<Longrightarrow> length xs \<le> sum_list (map f xs)"
  for f :: "'a \<Rightarrow> nat"
  by (induction xs) auto

lemma labels_inv_leaf_bound:
  assumes "tree_inv u" "labels_inv n syms u"
  shows "length (leaf_inds u) \<le> n"
proof -
  have "1 \<le> length (labels_of (node_dict u) i)" if "i \<in> set (leaf_inds u)" for i
  proof -
    from tree_inv_leaf_key [OF assms(1) that] obtain leaf where l: "map_of (node_dict u) i = Some leaf" ..
    with assms(2) that have "labels leaf \<noteq> []" unfolding labels_inv_def by blast
    with l show ?thesis by (cases "labels leaf") (auto simp: labels_of_def)
  qed
  then have "length (leaf_inds u) \<le> label_count u"
    unfolding label_count_def by (intro length_le_sum_list) auto
  with assms(2) show ?thesis by (simp add: labels_inv_def)
qed


lemma split_leaves_total:
  assumes step: "\<And>u i leaf lc rc mk. P u \<Longrightarrow> tree_inv u \<Longrightarrow> keys_below mk u \<Longrightarrow>
            i \<in> set (leaf_inds u) \<Longrightarrow> map_of (node_dict u) i = Some leaf \<Longrightarrow> \<not> is_stopped leaf \<Longrightarrow>
            new_children sp (symbols u) i leaf = Inr (lc, rc) \<Longrightarrow> P (split_one u i mk lc rc)"
    and ok: "\<And>u i leaf. P u \<Longrightarrow> tree_inv u \<Longrightarrow>
            i \<in> set (leaf_inds u) \<Longrightarrow> map_of (node_dict u) i = Some leaf \<Longrightarrow> \<not> is_stopped leaf \<Longrightarrow>
            \<exists>c. new_children sp (symbols u) i leaf = Inr c"
  shows "remove_each rem orig = Inr L \<Longrightarrow> distinct todo \<Longrightarrow> set todo \<subseteq> set L \<Longrightarrow>
         tree_inv (t\<lparr>node_dict := nd, leaf_inds := L @ add\<rparr>) \<Longrightarrow>
         keys_below mk (t\<lparr>node_dict := nd, leaf_inds := L @ add\<rparr>) \<Longrightarrow>
         P (t\<lparr>node_dict := nd, leaf_inds := L @ add\<rparr>) \<Longrightarrow>
         \<exists>r. split_leaves sp (symbols t) todo (nd, mk, rem, add) = Inr r"
proof (induction todo arbitrary: nd mk rem add L)
  case Nil
  then show ?case by simp
next
  case (Cons i todo)
  let ?u = "t\<lparr>node_dict := nd, leaf_inds := L @ add\<rparr>"
  from Cons.prems(2,3) have iL: "i \<in> set L" and it: "i \<notin> set todo" and dt: "distinct todo"
    and sub: "set todo \<subseteq> set L" by auto
  then have iu: "i \<in> set (leaf_inds ?u)" by simp
  from tree_inv_leaf_key [OF Cons.prems(4) iu] obtain leaf where leaf: "map_of nd i = Some leaf"
    by auto
  have "\<exists>s1. split_leaf sp (symbols t) i (nd, mk, rem, add) = Inr s1"
  proof (cases "is_stopped leaf")
    case True
    with leaf show ?thesis by (simp add: split_leaf_def)
  next
    case False
    have "\<exists>c. new_children sp (symbols ?u) i leaf = Inr c"
      by (rule ok [OF Cons.prems(6,4) iu _ False]) (simp add: leaf)
    with leaf False show ?thesis by (auto simp: split_leaf_def)
  qed
  then obtain s1 where s1: "split_leaf sp (symbols t) i (nd, mk, rem, add) = Inr s1" ..
  have "\<exists>nd1 mk1 rem1 add1 L1. s1 = (nd1, mk1, rem1, add1) \<and> remove_each rem1 orig = Inr L1 \<and>
           set L - {i} \<subseteq> set L1 \<and>
           tree_inv (t\<lparr>node_dict := nd1, leaf_inds := L1 @ add1\<rparr>) \<and>
           keys_below mk1 (t\<lparr>node_dict := nd1, leaf_inds := L1 @ add1\<rparr>) \<and>
           P (t\<lparr>node_dict := nd1, leaf_inds := L1 @ add1\<rparr>)"
    by (rule split_leaf_step [where P = P, OF _ s1 Cons.prems(1) iL Cons.prems(4,5,6)]) (rule step)
  then obtain nd1 mk1 rem1 add1 L1 where 1: "s1 = (nd1, mk1, rem1, add1)" "remove_each rem1 orig = Inr L1"
    "set L - {i} \<subseteq> set L1"
    "tree_inv (t\<lparr>node_dict := nd1, leaf_inds := L1 @ add1\<rparr>)"
    "keys_below mk1 (t\<lparr>node_dict := nd1, leaf_inds := L1 @ add1\<rparr>)"
    "P (t\<lparr>node_dict := nd1, leaf_inds := L1 @ add1\<rparr>)"
    by blast
  from sub it 1(3) have "set todo \<subseteq> set L1" by auto
  from Cons.IH [OF 1(2) dt this 1(4,5,6)] s1 1(1) show ?case by simp
qed

lemma fit_pass_total:
  assumes step: "\<And>u i leaf lc rc mk. P u \<Longrightarrow> tree_inv u \<Longrightarrow> keys_below mk u \<Longrightarrow>
            i \<in> set (leaf_inds u) \<Longrightarrow> map_of (node_dict u) i = Some leaf \<Longrightarrow> \<not> is_stopped leaf \<Longrightarrow>
            new_children sp (symbols u) i leaf = Inr (lc, rc) \<Longrightarrow> P (split_one u i mk lc rc)"
    and ok: "\<And>u i leaf. P u \<Longrightarrow> tree_inv u \<Longrightarrow>
            i \<in> set (leaf_inds u) \<Longrightarrow> map_of (node_dict u) i = Some leaf \<Longrightarrow> \<not> is_stopped leaf \<Longrightarrow>
            \<exists>c. new_children sp (symbols u) i leaf = Inr c"
    and inv: "tree_inv t" and kb: "keys_below mk t" and P: "P t"
  shows "\<exists>r. fit_pass sp mk t = Inr r"
proof -
  have t: "t\<lparr>node_dict := node_dict t, leaf_inds := leaf_inds t @ []\<rparr> = t" by simp
  from inv have d: "distinct (leaf_inds t)" by (simp add: tree_inv_def)
  have "\<exists>r. split_leaves sp (symbols t) (leaf_inds t) (node_dict t, mk, [], []) = Inr r"
  proof (rule split_leaves_total [where P = P and L = "leaf_inds t" and orig = "leaf_inds t"])
    show "remove_each [] (leaf_inds t) = Inr (leaf_inds t)" by simp
    show "distinct (leaf_inds t)" by (rule d)
    show "set (leaf_inds t) \<subseteq> set (leaf_inds t)" by simp
    show "tree_inv (t\<lparr>node_dict := node_dict t, leaf_inds := leaf_inds t @ []\<rparr>)"
      using inv by (simp add: t)
    show "keys_below mk (t\<lparr>node_dict := node_dict t, leaf_inds := leaf_inds t @ []\<rparr>)"
      using kb by (simp add: t)
    show "P (t\<lparr>node_dict := node_dict t, leaf_inds := leaf_inds t @ []\<rparr>)"
      using P by (simp add: t)
  qed (rule step, assumption+, rule ok, assumption+)
  then obtain nd' mk' rem' add' where
    sl: "split_leaves sp (symbols t) (leaf_inds t) (node_dict t, mk, [], []) = Inr (nd', mk', rem', add')"
    by (metis surj_pair)
  have "\<exists>L'. remove_each rem' (leaf_inds t) = Inr L' \<and>
              tree_inv (t\<lparr>node_dict := nd', leaf_inds := L' @ add'\<rparr>) \<and>
              keys_below mk' (t\<lparr>node_dict := nd', leaf_inds := L' @ add'\<rparr>) \<and>
              P (t\<lparr>node_dict := nd', leaf_inds := L' @ add'\<rparr>)"
  proof (rule split_leaves_rule [where P = P and L = "leaf_inds t" and orig = "leaf_inds t", OF _ sl])
    show "remove_each [] (leaf_inds t) = Inr (leaf_inds t)" by simp
    show "distinct (leaf_inds t)" by (rule d)
    show "set (leaf_inds t) \<subseteq> set (leaf_inds t)" by simp
    show "tree_inv (t\<lparr>node_dict := node_dict t, leaf_inds := leaf_inds t @ []\<rparr>)"
      using inv by (simp add: t)
    show "keys_below mk (t\<lparr>node_dict := node_dict t, leaf_inds := leaf_inds t @ []\<rparr>)"
      using kb by (simp add: t)
    show "P (t\<lparr>node_dict := node_dict t, leaf_inds := leaf_inds t @ []\<rparr>)"
      using P by (simp add: t)
  qed (rule step)
  then obtain L' where "remove_each rem' (leaf_inds t) = Inr L'" by blast
  with sl show ?thesis by (simp add: fit_pass_def)
qed

lemma split_leaf_counts:
  assumes "split_leaf sp syms i (nd, mk, rem, add) = Inr (nd', mk', rem', add')"
  shows "length rem \<le> length rem' \<and> length add' + 2 * length rem = length add + 2 * length rem' \<and>
         (\<forall>leaf. lookup nd (Some i) = Inr leaf \<and> \<not> is_stopped leaf \<longrightarrow> length rem < length rem') \<and>
         (\<forall>leaf. lookup nd (Some i) = Inr leaf \<and> is_stopped leaf \<longrightarrow> nd' = nd)"
  using assms unfolding split_leaf_def
  by (auto split: sum.splits if_splits prod.splits)

lemma split_leaves_counts:
  "split_leaves sp syms todo (nd, mk, rem, add) = Inr (nd', mk', rem', add') \<Longrightarrow>
   length rem \<le> length rem' \<and> length add' + 2 * length rem = length add + 2 * length rem' \<and>
   ((\<exists>i \<in> set todo. \<exists>leaf. lookup nd (Some i) = Inr leaf \<and> \<not> is_stopped leaf) \<longrightarrow>
      length rem < length rem')"
proof (induction todo arbitrary: nd mk rem add)
  case Nil
  then show ?case by simp
next
  case (Cons i todo)
  from Cons.prems obtain nd1 mk1 rem1 add1
    where s1: "split_leaf sp syms i (nd, mk, rem, add) = Inr (nd1, mk1, rem1, add1)"
      and rest: "split_leaves sp syms todo (nd1, mk1, rem1, add1) = Inr (nd', mk', rem', add')"
    by (cases "split_leaf sp syms i (nd, mk, rem, add)") auto
  note c1 = split_leaf_counts [OF s1] and c2 = Cons.IH [OF rest]
  from s1 obtain leaf where leaf: "lookup nd (Some i) = Inr leaf"
    by (cases "lookup nd (Some i)") (auto simp: split_leaf_def)
  have "length rem < length rem'"
    if ex: "\<exists>j \<in> set (i # todo). \<exists>l. lookup nd (Some j) = Inr l \<and> \<not> is_stopped l"
  proof (cases "is_stopped leaf")
    case True
    with c1 leaf have "nd1 = nd" by blast
    moreover from ex True leaf have "\<exists>j \<in> set todo. \<exists>l. lookup nd (Some j) = Inr l \<and> \<not> is_stopped l"
      by auto
    ultimately show ?thesis using c1 c2 by auto
  next
    case False
    with c1 leaf have "length rem < length rem1" by blast
    with c2 show ?thesis by auto
  qed
  with c1 c2 show ?case by auto
qed

lemma remove_each_length: "remove_each js xs = Inr L \<Longrightarrow> length L + length js = length xs"
proof (induction js arbitrary: xs)
  case Nil
  then show ?case by simp
next
  case (Cons j js)
  from Cons.prems have j: "j \<in> set xs" and r: "remove_each js (remove1 j xs) = Inr L"
    by (auto split: if_splits)
  from j have "0 < length xs" by (cases xs) auto
  with Cons.IH [OF r] j show ?case by (simp add: length_remove1)
qed

lemma check_leaves_False:
  "check_leaves nd xs = Inr False \<Longrightarrow>
   \<exists>i \<in> set xs. \<exists>leaf. lookup nd (Some i) = Inr leaf \<and> \<not> is_stopped leaf"
  by (induction xs) (auto split: sum.splits if_splits option.splits)

lemma check_leaves_True:
  "check_leaves nd xs = Inr True \<Longrightarrow>
   \<forall>i \<in> set xs. \<exists>leaf. map_of nd i = Some leaf \<and> is_stopped leaf"
  by (induction xs) (auto split: sum.splits if_splits option.splits)

lemma check_leaves_total:
  "\<forall>i \<in> set xs. \<exists>leaf. map_of nd i = Some leaf \<Longrightarrow> \<exists>b. check_leaves nd xs = Inr b"
  by (induction xs) auto

lemma fit_pass_progress:
  assumes "check_full_stopped t = Inr False" "fit_pass sp mk t = Inr (mk', t')"
  shows "length (leaf_inds t) < length (leaf_inds t')"
proof -
  from assms(2) obtain nd' rem' add' L' where
    sl: "split_leaves sp (symbols t) (leaf_inds t) (node_dict t, mk, [], []) = Inr (nd', mk', rem', add')"
    and re: "remove_each rem' (leaf_inds t) = Inr L'"
    and t': "t' = t\<lparr>node_dict := nd', leaf_inds := L' @ add'\<rparr>"
    by (auto simp: fit_pass_def split: sum.splits)
  from check_leaves_False [OF assms(1) [unfolded check_full_stopped_def]] split_leaves_counts [OF sl]
  have "0 < length rem'" "length add' = 2 * length rem'" by auto
  moreover from remove_each_length [OF re] have "length L' + length rem' = length (leaf_inds t)" .
  moreover from t' have "length (leaf_inds t') = length L' + length add'" by simp
  ultimately show ?thesis by linarith
qed


lemma fit_loop_terminates:
  assumes step: "\<And>u i leaf lc rc mk. P u \<Longrightarrow> tree_inv u \<Longrightarrow> keys_below mk u \<Longrightarrow>
            i \<in> set (leaf_inds u) \<Longrightarrow> map_of (node_dict u) i = Some leaf \<Longrightarrow> \<not> is_stopped leaf \<Longrightarrow>
            new_children sp (symbols u) i leaf = Inr (lc, rc) \<Longrightarrow> P (split_one u i mk lc rc)"
    and ok: "\<And>u i leaf. P u \<Longrightarrow> tree_inv u \<Longrightarrow>
            i \<in> set (leaf_inds u) \<Longrightarrow> map_of (node_dict u) i = Some leaf \<Longrightarrow> \<not> is_stopped leaf \<Longrightarrow>
            \<exists>c. new_children sp (symbols u) i leaf = Inr c"
    and bound: "\<And>u. tree_inv u \<Longrightarrow> P u \<Longrightarrow> length (leaf_inds u) \<le> n"
  shows "tree_inv t \<Longrightarrow> keys_below mk t \<Longrightarrow> P t \<Longrightarrow> \<exists>t'. fit_loop sp mk t = Some (Inr t')"
proof (induction "n - length (leaf_inds t)" arbitrary: t mk rule: less_induct)
  case less
  note inv = less.prems(1) and kb = less.prems(2) and P = less.prems(3)
  have "\<forall>i \<in> set (leaf_inds t). \<exists>leaf. map_of (node_dict t) i = Some leaf"
    using tree_inv_leaf_key [OF inv] by blast
  from check_leaves_total [OF this] obtain b where b: "check_full_stopped t = Inr b"
    by (auto simp: check_full_stopped_def)
  show ?case
  proof (cases b)
    case True
    with b show ?thesis by (subst fit_loop.simps) simp
  next
    case False
    have "\<exists>r. fit_pass sp mk t = Inr r"
      by (rule fit_pass_total [where P = P, OF _ _ inv kb P]) (rule step, assumption+, rule ok, assumption+)
    then obtain mk1 t1 where fp: "fit_pass sp mk t = Inr (mk1, t1)" by (metis surj_pair)
    have r: "tree_inv t1 \<and> keys_below mk1 t1 \<and> P t1"
      by (rule fit_pass_rule [where P = P, OF _ fp inv kb P]) (rule step)
    from b False have bf: "check_full_stopped t = Inr False" by simp
    from fit_pass_progress [OF bf fp] bound [of t1] r
    have "n - length (leaf_inds t1) < n - length (leaf_inds t)" by auto
    from less.hyps [OF this] r obtain t' where "fit_loop sp mk1 t1 = Some (Inr t')" by blast
    with b False fp show ?thesis by (subst fit_loop.simps) simp
  qed
qed

lemma length_np_unique: "length (np_unique ls) = card (set ls)"
  by (simp add: np_unique_def length_remdups_card_conv)

lemma Tree_init_labels:
  assumes "Tree_init d ls = Inr t" "ls \<noteq> []"
  shows "labels_inv (length ls) (symbols t) t"
proof -
  from Tree_init_shape [OF assms(1)] obtain rs where
    "t = \<lparr>node_dict = [(0, Node d ls (length (np_unique ls) = 1) 1
                                   (class_priors (np_unique ls) ls) rs None)],
                    leaf_inds = [0], symbols = np_unique ls\<rparr>" ..
  with assms(2) show ?thesis
    by (simp add: labels_inv_def label_count_def labels_of_def Node_def)
qed

text \<open>
  C2: for a tree built from a dataset with at least one label, and a collaborator that
  splits the labels of every non-pure leaf into two non-empty parts, \<open>fit_full_tree\<close>
  returns; the tree it returns was made by at most as many splits as there are samples,
  and each of its leaves is stopped and has exactly one distinct label.
\<close>

theorem C2_fit_full_tree_terminates:
  assumes init: "Tree_init d ls = Inr t" and ne: "ls \<noteq> []"
    and part: "strict_partition sp (symbols t)"
  shows "\<exists>t'. fit_full_tree sp t = Some (Inr t') \<and> split_count t' \<le> length ls \<and> leaves_pure t'"
proof -
  let ?n = "length ls" and ?syms = "symbols t"
  let ?P = "labels_inv ?n ?syms"
  have split: "\<exists>lc rc. new_children sp (symbols u) i leaf = Inr (lc, rc) \<and>
           labels lc \<noteq> [] \<and> labels rc \<noteq> [] \<and>
           mset (labels lc) + mset (labels rc) = mset (labels leaf)"
    if "?P u" "i \<in> set (leaf_inds u)" "map_of (node_dict u) i = Some leaf" "\<not> is_stopped leaf"
    for u i leaf
  proof -
    from that have "labels leaf \<noteq> []" "length (np_unique (labels leaf)) \<noteq> 1" and s: "symbols u = ?syms"
      unfolding labels_inv_def by blast+
    with np_unique_nonempty [of "labels leaf"] have "1 < length (np_unique (labels leaf))" by linarith
    with part s show ?thesis unfolding strict_partition_def by simp
  qed
  have step: "?P (split_one u i mk lc rc)"
    if "?P u" "tree_inv u" "keys_below mk u" "i \<in> set (leaf_inds u)"
      "map_of (node_dict u) i = Some leaf" "\<not> is_stopped leaf"
      "new_children sp (symbols u) i leaf = Inr (lc, rc)" for u i leaf lc rc mk
  proof -
    from split [OF that(1,4,5,6)] that(7)
    have l: "labels lc \<noteq> []" "labels rc \<noteq> []"
      and m: "mset (labels lc) + mset (labels rc) = mset (labels leaf)" by auto
    from m have "size (mset (labels lc) + mset (labels rc)) = size (mset (labels leaf))" by simp
    then have len: "length (labels lc) + length (labels rc) = length (labels leaf)" by simp
    from new_children_stopped [OF that(7)]
    have st: "is_stopped lc \<longleftrightarrow> length (np_unique (labels lc)) = 1"
      "is_stopped rc \<longleftrightarrow> length (np_unique (labels rc)) = 1" by auto
    from split_one_labels [OF that(2,3,4,5) l(1) st(1) l(2) st(2) len that(1)] show ?thesis .
  qed
  have ok: "\<exists>c. new_children sp (symbols u) i leaf = Inr c"
    if "?P u" "tree_inv u" "i \<in> set (leaf_inds u)" "map_of (node_dict u) i = Some leaf" "\<not> is_stopped leaf"
    for u i leaf
    using split [OF that(1,3,4,5)] by blast
  have bound: "length (leaf_inds u) \<le> ?n" if "tree_inv u" "?P u" for u
    using labels_inv_leaf_bound [OF that] .
  from Tree_init_inv [OF init] have inv: "tree_inv t" by simp
  from Tree_init_labels [OF init ne] have P0: "?P t" .
  from Tree_init_shape [OF init] have nonempty: "node_dict t \<noteq> []" by auto
  have "\<exists>t'. fit_loop sp (Max (set (keys (node_dict t)))) t = Some (Inr t')"
    by (rule fit_loop_terminates [where P = ?P and n = ?n, OF _ _ _ inv keys_below_Max P0])
       (rule step, assumption+, rule ok, assumption+, rule bound, assumption+)
  then obtain t' where fl: "fit_loop sp (Max (set (keys (node_dict t)))) t = Some (Inr t')" ..
  with nonempty have run: "fit_full_tree sp t = Some (Inr t')" by (simp add: fit_full_tree_def)
  have res: "tree_inv t' \<and> ?P t' \<and> check_full_stopped t' = Inr True"
    by (rule fit_loop_rule [where P = ?P, OF _ fl inv keys_below_Max P0]) (rule step)
  from res bound [of t'] have "length (node_dict t') + 1 \<le> 2 * ?n"
    unfolding labels_inv_def by simp
  then have sc: "split_count t' \<le> ?n" by (simp add: split_count_def)
  have "leaves_pure t'"
    unfolding leaves_pure_def
  proof
    fix i assume i: "i \<in> set (leaf_inds t')"
    from res check_leaves_True [of "node_dict t'" "leaf_inds t'"] i
    obtain leaf where leaf: "map_of (node_dict t') i = Some leaf" "is_stopped leaf"
      by (auto simp: check_full_stopped_def)
    with res i have "length (np_unique (labels leaf)) = 1" unfolding labels_inv_def by blast
    with leaf show "\<exists>leaf. map_of (node_dict t') i = Some leaf \<and> is_stopped leaf \<and> card (set (labels leaf)) = 1"
      by (simp add: length_np_unique)
  qed
  with run sc show ?thesis by blast
qed

lemma ex_collab_partition: "strict_partition ex_collab syms"
  unfolding strict_partition_def
proof (intro allI impI)
  fix i and leaf :: node
  assume "1 < length (np_unique (labels leaf))"
  then have c: "1 < card (set (labels leaf))" by (simp add: length_np_unique)
  then obtain x xs where ls: "labels leaf = x # xs" by (cases "labels leaf") auto
  with c have "xs \<noteq> []" by (cases xs) auto
  with ls show "\<exists>lc rc. new_children ex_collab syms i leaf = Inr (lc, rc) \<and>
           labels lc \<noteq> [] \<and> labels rc \<noteq> [] \<and>
           mset (labels lc) + mset (labels rc) = mset (labels leaf)"
    by (simp add: new_children_def ex_collab_def Node_def Let_def)
qed

theorem C2_fit_full_tree_terminates_witness:
  "Tree_init (NDArray [2] [1, 2]) [0, 1] = Inr ex_two \<and> strict_partition ex_collab (symbols ex_two) \<and>
   fit_full_tree ex_collab ex_two = Some (Inr ex_two_grown) \<and>
   split_count ex_two_grown \<le> length [0::rat, 1] \<and> leaves_pure ex_two_grown"
proof -
  have ne: "[0::rat, 1] \<noteq> []" by simp
  from C2_fit_full_tree_terminates [OF ex_two_init ne ex_collab_partition] ex_two_fit
  have "split_count ex_two_grown \<le> length [0::rat, 1] \<and> leaves_pure ex_two_grown" by auto
  with ex_two_init ex_collab_partition ex_two_fit show ?thesis by blast
qed

subsection \<open>Subtree removal keeps the invariant\<close>

lemma collect_level_above:
  "collect_level nd rem (acc, new) = Inr (acc', new') \<Longrightarrow>
   \<forall>j n. map_of nd j = Some n \<longrightarrow> node_ok j n \<Longrightarrow>
   \<forall>x. Some x \<in> set rem \<longrightarrow> k < x \<Longrightarrow> \<forall>x \<in> set acc. k < x \<Longrightarrow> \<forall>x. Some x \<in> set new \<longrightarrow> k < x \<Longrightarrow>
   (\<forall>x \<in> set acc'. k < x) \<and> (\<forall>x. Some x \<in> set new' \<longrightarrow> k < x)"
proof (induction rem arbitrary: acc new)
  case Nil
  then show ?case by simp
next
  case (Cons a rem)
  from Cons.prems(1) obtain x where a: "a = Some x" by (cases a) auto
  from Cons.prems(1) a obtain n where n: "map_of nd x = Some n"
    by (auto split: option.splits)
  with Cons.prems(2) have ok: "node_ok x n" by blast
  from Cons.prems(3) a have kx: "k < x" by simp
  let ?new = "if truthy (left n) then new @ [left n, right n] else new"
  from Cons.prems(1) a n have run: "collect_level nd rem (acc @ [x], ?new) = Inr (acc', new')"
    by simp
  have 1: "\<forall>y \<in> set (acc @ [x]). k < y" using Cons.prems(4) kx by auto
  have 2: "\<forall>y. Some y \<in> set ?new \<longrightarrow> k < y"
    using Cons.prems(5) ok kx by (auto simp: node_ok_def)
  from Cons.prems(3) have 3: "\<forall>y. Some y \<in> set rem \<longrightarrow> k < y" by simp
  show ?case by (rule Cons.IH [OF run Cons.prems(2) 3 1 2])
qed

lemma collect_loop_above:
  assumes run: "collect_loop nd rem acc = Some (Inr res)"
    and ok: "\<forall>j n. map_of nd j = Some n \<longrightarrow> node_ok j n"
  shows "\<forall>x. Some x \<in> set rem \<longrightarrow> k < x \<Longrightarrow> \<forall>x \<in> set acc. k < x \<Longrightarrow> \<forall>x \<in> set res. k < x"
proof -
  let ?Q = "\<lambda>nd' rem acc (y :: error + int list). nd' = nd \<longrightarrow> (\<forall>res. y = Inr res \<longrightarrow>
     (\<forall>x. Some x \<in> set rem \<longrightarrow> k < x) \<longrightarrow> (\<forall>x \<in> set acc. k < x) \<longrightarrow> (\<forall>x \<in> set res. k < x))"
  have "?Q nd rem acc (Inr res)"
  proof (rule collect_loop.raw_induct [where P = ?Q, OF _ run])
    fix f nd' rem acc y
    assume IH: "\<And>nd' rem acc y. f nd' rem acc = Some y \<Longrightarrow> ?Q nd' rem acc y"
      and eq: "(if rem = [] then Some (Inr acc)
        else (case collect_level nd' rem (acc, []) of
                Inl e \<Rightarrow> Some (Inl e)
              | Inr (node_list', new_rem_nodes) \<Rightarrow> f nd' new_rem_nodes node_list')) = Some y"
    show "?Q nd' rem acc y"
    proof (intro impI allI)
      fix res
      assume nd: "nd' = nd" and y: "y = Inr res" and r: "\<forall>x. Some x \<in> set rem \<longrightarrow> k < x"
        and a: "\<forall>x \<in> set acc. k < x"
      show "\<forall>x \<in> set res. k < x"
      proof (cases "rem = []")
        case True
        with eq y a show ?thesis by simp
      next
        case False
        with eq y nd obtain acc1 new1 where cl: "collect_level nd rem (acc, []) = Inr (acc1, new1)"
          and f: "f nd new1 acc1 = Some (Inr res)"
          by (cases "collect_level nd rem (acc, [])") auto
        from collect_level_above [OF cl ok r a] have "\<forall>x \<in> set acc1. k < x" "\<forall>x. Some x \<in> set new1 \<longrightarrow> k < x"
          by auto
        with IH [OF f] show ?thesis by simp
      qed
    qed
  qed
  then show "\<forall>x. Some x \<in> set rem \<longrightarrow> k < x \<Longrightarrow> \<forall>x \<in> set acc. k < x \<Longrightarrow> \<forall>x \<in> set res. k < x"
    by simp
qed

lemma delete_nodes_result:
  "distinct ls \<Longrightarrow> delete_nodes xs (nd, ls) = Inr (nd', ls') \<Longrightarrow>
   nd' = filter (\<lambda>(k, n). k \<notin> set xs) nd \<and> ls' = filter (\<lambda>k. k \<notin> set xs) ls"
proof (induction xs arbitrary: nd ls)
  case Nil
  then show ?case by simp
next
  case (Cons x xs)
  let ?ls = "if x \<in> set ls then remove1 x ls else ls"
  from Cons.prems(2) have r: "delete_nodes xs (AList.delete x nd, ?ls) = Inr (nd', ls')"
    by (auto split: if_splits)
  from Cons.prems(1) have d: "distinct ?ls" by simp
  have e: "?ls = filter (\<lambda>k. k \<noteq> x) ls"
  proof (cases "x \<in> set ls")
    case True
    with Cons.prems(1) show ?thesis
      by (auto simp: distinct_remove1_removeAll removeAll_filter_not_eq intro!: filter_cong)
  next
    case False
    then have "filter (\<lambda>k. k \<noteq> x) ls = ls" by (induction ls) auto
    with False show ?thesis by simp
  qed
  from Cons.IH [OF d r] show ?case
    unfolding e by (auto simp: delete_eq_filter case_prod_unfold intro!: filter_cong)
qed

lemma tree_inv_make_leaf:
  assumes inv: "tree_inv u" and k: "k \<in> set (keys (node_dict u))" and nl: "k \<notin> set (leaf_inds u)"
  shows "tree_inv (u\<lparr>node_dict := AList.map_entry k clear_children (node_dict u),
                     leaf_inds := leaf_inds u @ [k]\<rparr>)"
proof -
  let ?m = "map_of (node_dict u)"
  let ?u' = "u\<lparr>node_dict := AList.map_entry k clear_children (node_dict u), leaf_inds := leaf_inds u @ [k]\<rparr>"
  from inv have d: "distinct (keys (node_dict u))" and dl: "distinct (leaf_inds u)"
    and root: "\<exists>r. ?m 0 = Some r \<and> parent r = None"
    and ok: "\<And>k n. ?m k = Some n \<Longrightarrow> node_ok k n"
    and leaves: "set (leaf_inds u) = {k. \<exists>n. ?m k = Some n \<and> left n = None \<and> right n = None}"
    unfolding tree_inv_alt by auto
  from k obtain n where n: "?m k = Some n" by (auto simp: keys_map_of)
  have me: "map_of (AList.map_entry k clear_children (node_dict u)) = ?m(k \<mapsto> clear_children n)"
    using n by (auto simp: map_of_map_entry fun_eq_iff)
  then have m': "map_of (node_dict ?u') = ?m(k \<mapsto> clear_children n)" by simp
  have 1: "distinct (keys (node_dict ?u'))" using d by (simp add: keys_def distinct_map_entry)
  have 2: "distinct (leaf_inds ?u')" using dl nl by simp
  have 3: "\<exists>r. map_of (node_dict ?u') 0 = Some r \<and> parent r = None"
    using root n unfolding m' by (auto simp: clear_children_def)
  have 4: "node_ok j x" if "map_of (node_dict ?u') j = Some x" for j x
  proof (cases "j = k")
    case True
    with that have "x = clear_children n" by (simp add: me)
    with ok [OF n] True show ?thesis by (simp add: node_ok_def clear_children_def)
  next
    case False
    with that ok show ?thesis by (simp add: me)
  qed
  have 5: "set (leaf_inds ?u') = {j. \<exists>x. map_of (node_dict ?u') j = Some x \<and> left x = None \<and> right x = None}"
    unfolding m' using leaves by (auto simp: clear_children_def)
  from 1 2 3 4 5 show ?thesis unfolding tree_inv_alt [of ?u'] by blast
qed

lemma remove_subtree_inv:
  assumes inv: "tree_inv t" and run: "remove_subtree t k = Some (Inr (t', out))"
  shows "tree_inv t'"
proof (cases "k \<notin> set (keys (node_dict t)) \<or> k \<in> set (leaf_inds t)")
  case True
  with run have "t' = t" by (auto simp: remove_subtree_def split: if_splits)
  with inv show ?thesis by simp
next
  case False
  then have kk: "k \<in> set (keys (node_dict t))" and kl: "k \<notin> set (leaf_inds t)" by auto
  from kk obtain rn where rn: "map_of (node_dict t) k = Some rn" by (auto simp: keys_map_of)
  from inv have dl: "distinct (leaf_inds t)" and ok: "\<forall>j n. map_of (node_dict t) j = Some n \<longrightarrow> node_ok j n"
    and root: "\<exists>r. map_of (node_dict t) 0 = Some r" unfolding tree_inv_alt by auto
  from ok rn have okk: "node_ok k rn" by blast
  from run kk kl rn obtain node_list where
    cl: "collect_loop (node_dict t) [left rn, right rn] [] = Some (Inr node_list)"
    by (auto simp: remove_subtree_def split: option.splits sum.splits)
  from run kk kl rn cl obtain nd ls where
    dn: "delete_nodes node_list (node_dict t, leaf_inds t) = Inr (nd, ls)"
    and t': "t' = t\<lparr>node_dict := AList.map_entry k clear_children nd, leaf_inds := ls @ [k]\<rparr>"
    by (auto simp: remove_subtree_def split: sum.splits)
  have above: "\<forall>x \<in> set node_list. k < x"
    by (rule collect_loop_above [OF cl ok]) (use okk in \<open>auto simp: node_ok_def\<close>)
  from okk have k0: "0 \<le> k" by (simp add: node_ok_def)
  with above have z: "0 \<notin> set node_list" and kn: "k \<notin> set node_list" by auto
  from delete_nodes_result [OF dl dn]
  have nd: "nd = filter (\<lambda>(k, n). k \<notin> set node_list) (node_dict t)"
    and ls: "ls = filter (\<lambda>k. k \<notin> set node_list) (leaf_inds t)" by auto
  let ?u = "t\<lparr>node_dict := nd, leaf_inds := ls\<rparr>"
  from tree_inv_filter [OF inv z] have invu: "tree_inv ?u" by (simp add: nd ls)
  have "k \<in> set (keys (node_dict ?u))"
    using rn kn by (simp add: keys_map_of nd map_of_filter_keep)
  moreover have "k \<notin> set (leaf_inds ?u)" using kl by (simp add: ls)
  ultimately have "tree_inv (?u\<lparr>node_dict := AList.map_entry k clear_children (node_dict ?u),
                     leaf_inds := leaf_inds ?u @ [k]\<rparr>)"
    by (rule tree_inv_make_leaf [OF invu])
  then show ?thesis by (simp add: t')
qed

lemma reachable_inv: "reachable t \<Longrightarrow> tree_inv t"
proof (induction rule: reachable.induct)
  case (init d ls t)
  then show ?case using Tree_init_inv by blast
next
  case (fit t sp t')
  have "tree_inv t' \<and> True \<and> check_full_stopped t' = Inr True"
    by (rule fit_full_tree_rule [where P = "\<lambda>u. True", OF _ fit.hyps(2) fit.IH]) simp_all
  then show ?case by simp
next
  case (remove t k t' out)
  then show ?case using remove_subtree_inv by blast
next
  case (cut t t' out)
  then show ?case using cut_useless_leaves_inv by blast
qed


text \<open>
  C3: in every tree state reachable from construction by \<open>fit_full_tree\<close>,
  \<open>remove_subtree\<close> and \<open>cut_useless_leaves\<close>, \<open>leaf_inds\<close> holds, without duplicates, exactly
  the identifiers of the nodes whose \<open>left\<close> and \<open>right\<close> fields are absent.
\<close>

theorem C3_leaf_inds_invariant:
  assumes "reachable t"
  shows "set (leaf_inds t) = {k. \<exists>n. map_of (node_dict t) k = Some n \<and> no_children n} \<and>
         distinct (leaf_inds t)"
  using reachable_inv [OF assms] unfolding tree_inv_alt no_children_def by simp

theorem C3_leaf_inds_invariant_witness:
  "reachable ex_two_grown \<and>
   set (leaf_inds ex_two_grown)
     = {k. \<exists>n. map_of (node_dict ex_two_grown) k = Some n \<and> no_children n} \<and>
   distinct (leaf_inds ex_two_grown)"
proof -
  have r: "reachable ex_two_grown"
    by (rule reachable.fit [OF reachable.init [OF ex_two_init] ex_two_fit])
  from C3_leaf_inds_invariant [OF r] r show ?thesis by simp
qed

subsection \<open>The level-order descent\<close>

lemma children_child_of:
  assumes "\<forall>j n. map_of nd j = Some n \<longrightarrow> node_ok j n"
  shows "c \<in> set (children nd x) \<longleftrightarrow> child_of nd x c"
proof (cases "map_of nd x")
  case None
  then show ?thesis by (simp add: children_def child_of_def)
next
  case (Some n)
  with assms have "node_ok x n" by blast
  then have "left n = None \<longleftrightarrow> right n = None" by (simp add: node_ok_def)
  with Some show ?thesis
    by (cases "left n"; cases "right n") (auto simp: children_def child_of_def)
qed

lemma collect_level_children:
  assumes ok: "\<forall>j n. map_of nd j = Some n \<longrightarrow> node_ok j n"
  shows "\<forall>x \<in> set R. \<exists>n. map_of nd x = Some n \<Longrightarrow>
         collect_level nd (map Some R) (acc, new)
           = Inr (acc @ R, new @ map Some (concat (map (children nd) R)))"
proof (induction R arbitrary: acc new)
  case Nil
  then show ?case by simp
next
  case (Cons x R)
  from Cons.prems obtain n where n: "map_of nd x = Some n" by auto
  with ok have nok: "node_ok x n" by blast
  have kids: "(if truthy (left n) then new @ [left n, right n] else new) = new @ map Some (children nd x)"
  proof (cases "left n")
    case None
    with nok have "right n = None" by (simp add: node_ok_def)
    with None n show ?thesis by (simp add: children_def)
  next
    case (Some l)
    with nok obtain r where r: "right n = Some r" by (cases "right n") (auto simp: node_ok_def)
    from nok Some have "l \<noteq> 0" by (auto simp: node_ok_def)
    with Some r n show ?thesis by (simp add: children_def)
  qed
  from Cons.prems have "\<forall>y \<in> set R. \<exists>n. map_of nd y = Some n" by simp
  from Cons.IH [OF this, of "acc @ [x]" "new @ map Some (children nd x)"] n kids
  show ?case by simp
qed

lemma props_level_children:
  assumes ok: "\<forall>j n. map_of nd j = Some n \<longrightarrow> node_ok j n"
    and cp: "\<forall>j n. map_of nd j = Some n \<longrightarrow> class_prob n \<noteq> []"
  shows "\<forall>x \<in> set R. \<exists>n. map_of nd x = Some n \<Longrightarrow>
         props_level nd (map Some R) (new, rate, ll)
           = Inr (new @ map Some (concat (map (children nd) R)),
                  rate + sum_list (map (leaf_risk nd) (filter (is_leaf nd) R)),
                  ll @ filter (is_leaf nd) R)"
proof (induction R arbitrary: new rate ll)
  case Nil
  then show ?case by simp
next
  case (Cons x R)
  from Cons.prems obtain n where n: "map_of nd x = Some n" by auto
  with ok cp have nok: "node_ok x n" and ncp: "class_prob n \<noteq> []" by blast+
  from Cons.prems have R: "\<forall>y \<in> set R. \<exists>n. map_of nd y = Some n" by simp
  show ?case
  proof (cases "left n")
    case None
    with nok have r: "right n = None" by (simp add: node_ok_def)
    from None r n have l: "is_leaf nd x" "children nd x = []"
      by (simp_all add: is_leaf_def no_children_def children_def)
    from n ncp have "compute_error_rate n = Inr (1 - list_max (class_prob n))"
      by (simp add: compute_error_rate_def)
    with Cons.IH [OF R, of new "rate + leaf_risk nd x" "ll @ [x]"] n None l
    show ?thesis by (simp add: leaf_risk_def add.assoc)
  next
    case (Some l)
    with nok obtain r where r: "right n = Some r" by (cases "right n") (auto simp: node_ok_def)
    from nok Some have "l \<noteq> 0" by (auto simp: node_ok_def)
    moreover from Some r n have "\<not> is_leaf nd x" "children nd x = [l, r]"
      by (simp_all add: is_leaf_def no_children_def children_def)
    ultimately show ?thesis
      using Cons.IH [OF R, of "new @ [Some l, Some r]" rate ll] n Some r by simp
  qed
qed

lemma distinct_concat_map:
  "distinct R \<Longrightarrow> (\<And>x. x \<in> set R \<Longrightarrow> distinct (f x)) \<Longrightarrow>
   (\<And>x y. x \<in> set R \<Longrightarrow> y \<in> set R \<Longrightarrow> x \<noteq> y \<Longrightarrow> set (f x) \<inter> set (f y) = {}) \<Longrightarrow>
   distinct (concat (map f R))"
proof (induction R)
  case Nil
  then show ?case by simp
next
  case (Cons x R)
  have "distinct (concat (map f R))"
    by (rule Cons.IH) (use Cons.prems in auto)
  moreover have "set (f x) \<inter> set (concat (map f R)) = {}"
    using Cons.prems(1) Cons.prems(3) [of x] by fastforce
  ultimately show ?case using Cons.prems(2) [of x] by simp
qed

lemma descendant_step:
  "descendant nd r d \<longleftrightarrow> child_of nd r d \<or> (\<exists>c. child_of nd r c \<and> descendant nd c d)"
  unfolding descendant_def
  by (metis converse_tranclpE tranclp.r_into_trancl tranclp_into_tranclp2)

lemma collect_loop_total:
  assumes ok: "\<forall>j n. map_of nd j = Some n \<longrightarrow> node_ok j n"
    and cl: "\<forall>j n c. map_of nd j = Some n \<longrightarrow> left n = Some c \<or> right n = Some c \<longrightarrow>
               (\<exists>m. map_of nd c = Some m \<and> parent m = Some j)"
  shows "distinct (acc @ R) \<Longrightarrow>
         \<forall>x \<in> set acc \<union> set R. k < x \<and> (\<exists>m p. map_of nd x = Some m \<and> parent m = Some p \<and> (p = k \<or> p \<in> set acc)) \<Longrightarrow>
         \<exists>new. collect_loop nd (map Some R) acc = Some (Inr (acc @ new)) \<and> distinct (acc @ new) \<and>
               set new = set R \<union> {d. \<exists>r \<in> set R. descendant nd r d} \<and>
               ((\<forall>j n. map_of nd j = Some n \<longrightarrow> class_prob n \<noteq> []) \<longrightarrow>
                (\<forall>rate ll. props_loop nd (map Some R) rate ll
                    = Some (Inr (rate + sum_list (map (leaf_risk nd) (filter (is_leaf nd) new)),
                                 ll @ filter (is_leaf nd) new))))"
proof (induction "card (dom (map_of nd) - set acc)" arbitrary: acc R rule: less_induct)
  case less
  note dist = less.prems(1) and inv = less.prems(2)
  show ?case
  proof (cases "R = []")
    case True
    have "collect_loop nd (map Some R) acc = Some (Inr (acc @ []))"
      using True by (subst collect_loop.simps) simp
    moreover have "props_loop nd (map Some R) rate ll
                    = Some (Inr (rate + sum_list (map (leaf_risk nd) (filter (is_leaf nd) [])),
                                 ll @ filter (is_leaf nd) []))" for rate ll
      using True by (subst props_loop.simps) simp
    ultimately show ?thesis using dist True by (intro exI [of _ "[]"]) simp
  next
    case False
    let ?R' = "concat (map (children nd) R)"
    have Rdom: "\<forall>x \<in> set R. \<exists>n. map_of nd x = Some n" using inv by blast
    have lvl: "collect_level nd (map Some R) (acc, []) = Inr (acc @ R, map Some ?R')"
      using collect_level_children [OF ok Rdom, of acc "[]"] by simp
    have kid: "\<exists>r \<in> set R. child_of nd r c \<and> r < c \<and> (\<exists>m. map_of nd c = Some m \<and> parent m = Some r)"
      if "c \<in> set ?R'" for c
    proof -
      from that obtain r where r: "r \<in> set R" "c \<in> set (children nd r)" by auto
      then have co: "child_of nd r c" by (simp add: children_child_of [OF ok])
      then obtain n where n: "map_of nd r = Some n" "left n = Some c \<or> right n = Some c"
        by (auto simp: child_of_def)
      with ok have "r < c" by (auto simp: node_ok_def)
      moreover from cl n have "\<exists>m. map_of nd c = Some m \<and> parent m = Some r" by blast
      ultimately show ?thesis using r co by blast
    qed
    have fresh: "c \<notin> set acc \<union> set R" if "c \<in> set ?R'" for c
    proof
      assume c: "c \<in> set acc \<union> set R"
      from kid [OF that] obtain r m where r: "r \<in> set R" "map_of nd c = Some m" "parent m = Some r"
        by blast
      from inv c obtain m' p where "map_of nd c = Some m'" "parent m' = Some p" "p = k \<or> p \<in> set acc"
        by blast
      with r have "r = k \<or> r \<in> set acc" by simp
      moreover from inv r(1) have "k < r" by blast
      moreover from dist r(1) have "r \<notin> set acc" by auto
      ultimately show False by simp
    qed
    have dR': "distinct ?R'"
    proof (rule distinct_concat_map)
      show "distinct R" using dist by simp
    next
      fix x assume "x \<in> set R"
      show "distinct (children nd x)"
      proof (cases "map_of nd x")
        case None
        then show ?thesis by (simp add: children_def)
      next
        case (Some n)
        with ok have "node_ok x n" by blast
        with Some show ?thesis
          by (cases "left n"; cases "right n") (auto simp: children_def node_ok_def)
      qed
    next
      fix x y assume xy: "x \<in> set R" "y \<in> set R" "x \<noteq> y"
      show "set (children nd x) \<inter> set (children nd y) = {}"
      proof (rule ccontr)
        assume "set (children nd x) \<inter> set (children nd y) \<noteq> {}"
        then obtain c where "child_of nd x c" "child_of nd y c"
          by (auto simp: children_child_of [OF ok])
        with cl have "\<exists>m. map_of nd c = Some m \<and> parent m = Some x"
          "\<exists>m. map_of nd c = Some m \<and> parent m = Some y"
          unfolding child_of_def by blast+
        with xy(3) show False by auto
      qed
    qed
    have dist': "distinct ((acc @ R) @ ?R')"
      using dist dR' fresh by auto
    have inv': "\<forall>x \<in> set (acc @ R) \<union> set ?R'. k < x \<and>
        (\<exists>m p. map_of nd x = Some m \<and> parent m = Some p \<and> (p = k \<or> p \<in> set (acc @ R)))"
    proof
      fix x assume "x \<in> set (acc @ R) \<union> set ?R'"
      then consider "x \<in> set acc \<union> set R" | "x \<in> set ?R'" by auto
      then show "k < x \<and> (\<exists>m p. map_of nd x = Some m \<and> parent m = Some p \<and> (p = k \<or> p \<in> set (acc @ R)))"
      proof cases
        case 1
        with inv obtain m p where "k < x" "map_of nd x = Some m" "parent m = Some p" "p = k \<or> p \<in> set acc"
          by blast
        then show ?thesis by auto
      next
        case 2
        from kid [OF 2] obtain r m where r: "r \<in> set R" "r < x" "map_of nd x = Some m" "parent m = Some r"
          by blast
        moreover from inv r(1) have "k < r" by blast
        ultimately show ?thesis by auto
      qed
    qed
    have "card (dom (map_of nd) - set (acc @ R)) < card (dom (map_of nd) - set acc)"
    proof (rule psubset_card_mono)
      show "finite (dom (map_of nd) - set acc)" by (simp add: finite_dom_map_of)
      from False obtain x where x: "x \<in> set R" by (cases R) auto
      with dist have "x \<notin> set acc" by auto
      moreover from Rdom x have "x \<in> dom (map_of nd)" by auto
      ultimately show "dom (map_of nd) - set (acc @ R) \<subset> dom (map_of nd) - set acc"
        using x by auto
    qed
    from less.hyps [OF this dist' inv']
    obtain new' where res: "collect_loop nd (map Some ?R') (acc @ R) = Some (Inr ((acc @ R) @ new'))"
      "distinct ((acc @ R) @ new')"
      "set new' = set ?R' \<union> {d. \<exists>r \<in> set ?R'. descendant nd r d}"
      and pl: "(\<forall>j n. map_of nd j = Some n \<longrightarrow> class_prob n \<noteq> []) \<longrightarrow>
                (\<forall>rate ll. props_loop nd (map Some ?R') rate ll
                    = Some (Inr (rate + sum_list (map (leaf_risk nd) (filter (is_leaf nd) new')),
                                 ll @ filter (is_leaf nd) new')))"
      by blast
    have cR': "c \<in> set ?R' \<longleftrightarrow> (\<exists>r \<in> set R. child_of nd r c)" for c
      by (auto simp: children_child_of [OF ok])
    have "{d. \<exists>r \<in> set R. descendant nd r d} = set ?R' \<union> {d. \<exists>r \<in> set ?R'. descendant nd r d}"
      (is "?A = ?B")
    proof (intro equalityI subsetI)
      fix d assume "d \<in> ?A"
      then obtain r where r: "r \<in> set R" "descendant nd r d" by blast
      from r(2) consider "child_of nd r d" | c where "child_of nd r c" "descendant nd c d"
        unfolding descendant_step [of nd r d] by blast
      then show "d \<in> ?B"
      proof cases
        case 1
        with r(1) have "d \<in> set ?R'" unfolding cR' by blast
        then show ?thesis by simp
      next
        case 2
        with r(1) have "c \<in> set ?R'" unfolding cR' by blast
        with 2(2) show ?thesis by blast
      qed
    next
      fix d assume "d \<in> ?B"
      then consider "d \<in> set ?R'" | c where "c \<in> set ?R'" "descendant nd c d" by blast
      then show "d \<in> ?A"
      proof cases
        case 1
        then obtain r where "r \<in> set R" "child_of nd r d" unfolding cR' by blast
        then show ?thesis using descendant_step [of nd r d] by blast
      next
        case 2
        from 2(1) obtain r where "r \<in> set R" "child_of nd r c" unfolding cR' by blast
        with 2(2) show ?thesis using descendant_step [of nd r d] by blast
      qed
    qed
    with res(3) have 1: "set (R @ new') = set R \<union> {d. \<exists>r \<in> set R. descendant nd r d}" by auto
    from False lvl res(1) have 2: "collect_loop nd (map Some R) acc = Some (Inr (acc @ (R @ new')))"
      by (subst collect_loop.simps) simp
    from res(2) have 3: "distinct (acc @ (R @ new'))" by simp
    have 4: "props_loop nd (map Some R) rate ll
                    = Some (Inr (rate + sum_list (map (leaf_risk nd) (filter (is_leaf nd) (R @ new'))),
                                 ll @ filter (is_leaf nd) (R @ new')))"
      if cp: "\<forall>j n. map_of nd j = Some n \<longrightarrow> class_prob n \<noteq> []" for rate ll
    proof -
      have "props_level nd (map Some R) ([], rate, ll)
           = Inr (map Some ?R', rate + sum_list (map (leaf_risk nd) (filter (is_leaf nd) R)),
                  ll @ filter (is_leaf nd) R)"
        using props_level_children [OF ok cp Rdom, of "[]" rate ll] by simp
      with False pl cp show ?thesis
        by (subst props_loop.simps) (simp add: add.assoc)
    qed
    from 1 2 3 4 show ?thesis by (intro exI [of _ "R @ new'"]) blast
  qed
qed

lemma delete_nodes_total:
  "distinct xs \<Longrightarrow> set xs \<subseteq> set (keys nd) \<Longrightarrow> \<exists>r. delete_nodes xs (nd, ls) = Inr r"
proof (induction xs arbitrary: nd ls)
  case Nil
  then show ?case by simp
next
  case (Cons x xs)
  have "set xs \<subseteq> set (keys (AList.delete x nd))"
  proof
    fix y assume y: "y \<in> set xs"
    with Cons.prems have "y \<noteq> x" "y \<in> fst ` set nd" by (auto simp: keys_def)
    then show "y \<in> set (keys (AList.delete x nd))"
      by (force simp: keys_def delete_eq_filter)
  qed
  with Cons.IH [of "AList.delete x nd"] Cons.prems show ?case by auto
qed

lemma tree_closed_alt:
  assumes "distinct (keys (node_dict t))"
  shows "tree_closed t \<longleftrightarrow>
     (\<forall>j n c. map_of (node_dict t) j = Some n \<longrightarrow> left n = Some c \<or> right n = Some c \<longrightarrow>
        (\<exists>m. map_of (node_dict t) c = Some m \<and> parent m = Some j))"
proof -
  from assms have d: "distinct (map fst (node_dict t))" by (simp add: keys_def)
  have mem: "(k, n) \<in> set (node_dict t) \<longleftrightarrow> map_of (node_dict t) k = Some n" for k n
    using d by simp
  have eq: "(case map_of (node_dict t) c of None \<Rightarrow> False | Some m \<Rightarrow> parent m = Some k)
            \<longleftrightarrow> (\<exists>m. map_of (node_dict t) c = Some m \<and> parent m = Some k)" for c k
    by (cases "map_of (node_dict t) c") auto
  show ?thesis
  proof
    assume c: "tree_closed t"
    show "\<forall>j n c. map_of (node_dict t) j = Some n \<longrightarrow> left n = Some c \<or> right n = Some c \<longrightarrow>
        (\<exists>m. map_of (node_dict t) c = Some m \<and> parent m = Some j)"
    proof (intro allI impI)
      fix j n ch
      assume "map_of (node_dict t) j = Some n" "left n = Some ch \<or> right n = Some ch"
      with c [unfolded tree_closed_def] mem [of j n]
      have "case map_of (node_dict t) ch of None \<Rightarrow> False | Some m \<Rightarrow> parent m = Some j"
        by blast
      then show "\<exists>m. map_of (node_dict t) ch = Some m \<and> parent m = Some j" by (simp only: eq)
    qed
  next
    assume a: "\<forall>j n c. map_of (node_dict t) j = Some n \<longrightarrow> left n = Some c \<or> right n = Some c \<longrightarrow>
        (\<exists>m. map_of (node_dict t) c = Some m \<and> parent m = Some j)"
    show "tree_closed t"
      unfolding tree_closed_def
    proof (intro ballI, clarify)
      fix k n ch
      assume "(k, n) \<in> set (node_dict t)" "left n = Some ch \<or> right n = Some ch"
      with a mem [of k n] have "\<exists>m. map_of (node_dict t) ch = Some m \<and> parent m = Some k" by blast
      then show "case map_of (node_dict t) ch of None \<Rightarrow> False | Some m \<Rightarrow> parent m = Some k"
        by (simp only: eq)
    qed
  qed
qed

lemma remove_subtree_result:
  assumes inv: "tree_inv t" and closed: "tree_closed t"
    and exists: "n \<in> set (keys (node_dict t))" and internal: "n \<notin> set (leaf_inds t)"
  shows "\<exists>res. distinct res \<and> set res = {d. descendant (node_dict t) n d} \<and> n \<notin> set res \<and>
     remove_subtree t n =
       Some (Inr (t\<lparr>node_dict := AList.map_entry n clear_children
                                    (filter (\<lambda>(k, x). k \<notin> set res) (node_dict t)),
                     leaf_inds := filter (\<lambda>k. k \<notin> set res) (leaf_inds t) @ [n]\<rparr>, []))"
proof -
  let ?nd = "node_dict t"
  from inv have dk: "distinct (keys ?nd)" and dl: "distinct (leaf_inds t)"
    and ok: "\<forall>j n. map_of ?nd j = Some n \<longrightarrow> node_ok j n"
    and leaves: "set (leaf_inds t) = {k. \<exists>n. map_of ?nd k = Some n \<and> left n = None \<and> right n = None}"
    unfolding tree_inv_alt by auto
  from closed have cl: "\<forall>j n c. map_of ?nd j = Some n \<longrightarrow> left n = Some c \<or> right n = Some c \<longrightarrow>
        (\<exists>m. map_of ?nd c = Some m \<and> parent m = Some j)"
    unfolding tree_closed_alt [OF dk] .
  from exists obtain rn where rn: "map_of ?nd n = Some rn" by (auto simp: keys_map_of)
  with ok have okn: "node_ok n rn" by blast
  from internal leaves rn have "\<not> (left rn = None \<and> right rn = None)" by auto
  with okn obtain l r where lr: "left rn = Some l" "right rn = Some r" "l \<noteq> r" "n < l" "n < r"
    by (cases "left rn"; cases "right rn") (auto simp: node_ok_def)
  have ch: "children ?nd n = [l, r]" using rn lr by (simp add: children_def)
  have pre: "\<forall>x \<in> set [] \<union> set [l, r]. n < x \<and>
      (\<exists>m p. map_of ?nd x = Some m \<and> parent m = Some p \<and> (p = n \<or> p \<in> set []))"
    using cl rn lr by auto
  have "distinct ([] @ [l, r])" using lr by simp
  from collect_loop_total [OF ok cl this pre]
  obtain res where res: "collect_loop ?nd [left rn, right rn] [] = Some (Inr res)" "distinct res"
    "set res = set [l, r] \<union> {d. \<exists>c \<in> set [l, r]. descendant ?nd c d}"
    using lr by auto
  have co: "child_of ?nd n c \<longleftrightarrow> c \<in> set [l, r]" for c
    using children_child_of [OF ok, of c n] ch by simp
  have "descendant ?nd n d \<longleftrightarrow> d \<in> set [l, r] \<or> (\<exists>c \<in> set [l, r]. descendant ?nd c d)" for d
    unfolding descendant_step [of ?nd n d] co by blast
  then have desc: "set res = {d. descendant ?nd n d}"
    unfolding res(3) by blast
  have above: "\<forall>x \<in> set res. n < x"
    by (rule collect_loop_above [OF res(1) ok]) (use lr in auto)
  then have nres: "n \<notin> set res" by auto
  have sub: "set res \<subseteq> set (keys ?nd)"
  proof
    fix d assume "d \<in> set res"
    then have "descendant ?nd n d" by (simp add: desc)
    then obtain p where "child_of ?nd p d" unfolding descendant_def by (metis tranclp.cases)
    with cl show "d \<in> set (keys ?nd)" unfolding child_of_def keys_map_of by blast
  qed
  from delete_nodes_total [OF res(2) sub] obtain nd ls
    where dn: "delete_nodes res (?nd, leaf_inds t) = Inr (nd, ls)" by (metis surj_pair)
  from delete_nodes_result [OF dl dn]
  have nd: "nd = filter (\<lambda>(k, n). k \<notin> set res) ?nd"
    and ls: "ls = filter (\<lambda>k. k \<notin> set res) (leaf_inds t)" by auto
  have "remove_subtree t n =
       Some (Inr (t\<lparr>node_dict := AList.map_entry n clear_children nd, leaf_inds := ls @ [n]\<rparr>, []))"
    using exists internal rn res(1) dn by (simp add: remove_subtree_def)
  with res(2) desc nres show ?thesis unfolding nd ls by blast
qed

text \<open>
  C6: in a well-formed tree whose child fields refer to existing nodes, for a node \<open>n\<close>
  that exists and is not in \<open>leaf_inds\<close>, \<open>remove_subtree\<close> returns; it deletes exactly the
  strict descendants of \<open>n\<close> from \<open>node_dict\<close> and from \<open>leaf_inds\<close>, clears the child fields
  of \<open>n\<close>, and leaves \<open>n\<close> in \<open>leaf_inds\<close> exactly once.
\<close>

theorem C6_remove_subtree:
  assumes inv: "tree_inv t" and closed: "tree_closed t"
    and exists: "n \<in> set (keys (node_dict t))" and internal: "n \<notin> set (leaf_inds t)"
  shows "\<exists>t'. remove_subtree t n = Some (Inr (t', [])) \<and>
     (\<forall>d. descendant (node_dict t) n d \<longrightarrow>
          d \<notin> set (keys (node_dict t')) \<and> d \<notin> set (leaf_inds t')) \<and>
     (\<exists>m. map_of (node_dict t') n = Some m \<and> left m = None \<and> right m = None) \<and>
     count_list (leaf_inds t') n = 1 \<and>
     set (keys (node_dict t')) = set (keys (node_dict t)) - {d. descendant (node_dict t) n d} \<and>
     set (leaf_inds t') = set (leaf_inds t) - {d. descendant (node_dict t) n d} \<union> {n}"
proof -
  let ?nd = "node_dict t"
  from remove_subtree_result [OF assms] obtain res where
    desc: "set res = {d. descendant ?nd n d}" and nres: "n \<notin> set res"
    and run: "remove_subtree t n =
       Some (Inr (t\<lparr>node_dict := AList.map_entry n clear_children
                                    (filter (\<lambda>(k, x). k \<notin> set res) ?nd),
                     leaf_inds := filter (\<lambda>k. k \<notin> set res) (leaf_inds t) @ [n]\<rparr>, []))"
    by blast
  let ?t' = "t\<lparr>node_dict := AList.map_entry n clear_children (filter (\<lambda>(k, x). k \<notin> set res) ?nd),
               leaf_inds := filter (\<lambda>k. k \<notin> set res) (leaf_inds t) @ [n]\<rparr>"
  from exists obtain rn where rn: "map_of ?nd n = Some rn" by (auto simp: keys_map_of)
  have keys': "set (keys (node_dict ?t')) = set (keys ?nd) - set res"
    by (auto simp: keys_def dom_map_entry)
  have leaf': "set (leaf_inds ?t') = set (leaf_inds t) - set res \<union> {n}"
    by auto
  have "map_of (filter (\<lambda>(k, x). k \<notin> set res) ?nd) n = Some rn"
    using rn nres by (simp add: map_of_filter_keep)
  then have node': "map_of (node_dict ?t') n = Some (clear_children rn)"
    by (simp add: map_of_map_entry)
  have cnt: "count_list (leaf_inds ?t') n = 1"
    using internal by (simp add: count_list_0_iff)
  have a: "\<forall>d. descendant ?nd n d \<longrightarrow>
          d \<notin> set (keys (node_dict ?t')) \<and> d \<notin> set (leaf_inds ?t')"
  proof (intro allI impI)
    fix d assume "descendant ?nd n d"
    then have "d \<in> set res" by (simp add: desc)
    moreover from this nres have "d \<noteq> n" by auto
    ultimately show "d \<notin> set (keys (node_dict ?t')) \<and> d \<notin> set (leaf_inds ?t')"
      unfolding keys' leaf' by simp
  qed
  have b: "\<exists>m. map_of (node_dict ?t') n = Some m \<and> left m = None \<and> right m = None"
    unfolding node' by (simp add: clear_children_def)
  from keys' have c: "set (keys (node_dict ?t')) = set (keys ?nd) - {d. descendant ?nd n d}"
    by (simp only: desc)
  from leaf' have d: "set (leaf_inds ?t') = set (leaf_inds t) - {d. descendant ?nd n d} \<union> {n}"
    by (simp only: desc)
  from run a b cnt c d show ?thesis by blast
qed

lemma ex_five_inv: "tree_inv ex_five"
  by (simp add: tree_inv_def node_ok_def ex_five_def keys_def childless_def Node_def ex_node_def)

lemma ex_five_closed: "tree_closed ex_five"
  by (simp add: tree_closed_def ex_five_def Node_def ex_node_def)

theorem C6_remove_subtree_witness:
  "tree_inv ex_five \<and> tree_closed ex_five \<and>
   remove_subtree ex_five 1 =
     Some (Inr (ex_five\<lparr>node_dict := [(0, ex_node 1 [1/2, 1/2] None (Some 1) (Some 2)),
                                      (1, ex_node (1/2) [3/4, 1/4] (Some 0) None None),
                                      (2, ex_node (1/2) [1, 0] (Some 0) None None)],
                         leaf_inds := [2, 1]\<rparr>, [])) \<and>
   (\<exists>t'. remove_subtree ex_five 1 = Some (Inr (t', [])) \<and> count_list (leaf_inds t') 1 = 1 \<and>
      set (keys (node_dict t')) = set (keys (node_dict ex_five)) - {d. descendant (node_dict ex_five) 1 d})"
proof -
  have e: "1 \<in> set (keys (node_dict ex_five))" and i: "1 \<notin> set (leaf_inds ex_five)"
    by (simp_all add: ex_five_def keys_def)
  have run: "remove_subtree ex_five 1 =
     Some (Inr (ex_five\<lparr>node_dict := [(0, ex_node 1 [1/2, 1/2] None (Some 1) (Some 2)),
                                      (1, ex_node (1/2) [3/4, 1/4] (Some 0) None None),
                                      (2, ex_node (1/2) [1, 0] (Some 0) None None)],
                         leaf_inds := [2, 1]\<rparr>, []))"
    by (simp add: remove_subtree_def collect_loop.simps ex_five_def keys_def Node_def ex_node_def
        clear_children_def AList.delete_eq)
  from C6_remove_subtree [OF ex_five_inv ex_five_closed e i] run ex_five_inv ex_five_closed
  show ?thesis by blast
qed

text \<open>
  C8: in a well-formed tree whose child fields refer to existing nodes and whose nodes
  have class probabilities, \<open>subtree_props\<close> of an existing node returns a list without
  duplicates of exactly the leaves of the subtree rooted there, and the sum over them of
  \<open>reach_prob * (1 - max class_prob)\<close>; for a leaf the list is the leaf itself.
\<close>

theorem C8_subtree_props:
  assumes inv: "tree_inv t" and closed: "tree_closed t" and hcp: "has_class_probs t"
    and exists: "k \<in> set (keys (node_dict t))"
  shows "\<exists>risk ls. subtree_props t k = Some (Inr ([], Some (risk, ls))) \<and> distinct ls \<and>
     set ls = {x \<in> set (leaf_inds t). x = k \<or> descendant (node_dict t) k x} \<and>
     risk = sum_list (map (leaf_risk (node_dict t)) ls) \<and>
     (k \<in> set (leaf_inds t) \<longrightarrow> ls = [k])"
proof -
  let ?nd = "node_dict t"
  from inv have dk: "distinct (keys ?nd)" and dl: "distinct (leaf_inds t)"
    and ok: "\<forall>j n. map_of ?nd j = Some n \<longrightarrow> node_ok j n"
    and leaves: "set (leaf_inds t) = {k. \<exists>n. map_of ?nd k = Some n \<and> left n = None \<and> right n = None}"
    unfolding tree_inv_alt by auto
  from closed have cl: "\<forall>j n c. map_of ?nd j = Some n \<longrightarrow> left n = Some c \<or> right n = Some c \<longrightarrow>
        (\<exists>m. map_of ?nd c = Some m \<and> parent m = Some j)"
    unfolding tree_closed_alt [OF dk] .
  from hcp dk have cp: "\<forall>j n. map_of ?nd j = Some n \<longrightarrow> class_prob n \<noteq> []"
    unfolding has_class_probs_def by (auto dest: map_of_SomeD)
  have leaf_iff: "is_leaf ?nd x \<longleftrightarrow> x \<in> set (leaf_inds t)" for x
    unfolding leaves by (auto simp: is_leaf_def no_children_def split: option.splits)
  from exists obtain rn where rn: "map_of ?nd k = Some rn" by (auto simp: keys_map_of)
  with ok cp have okn: "node_ok k rn" and cpn: "class_prob rn \<noteq> []" by blast+
  show ?thesis
  proof (cases "k \<in> set (leaf_inds t)")
    case True
    with leaves rn have "left rn = None" "right rn = None" by auto
    with rn have "\<not> child_of ?nd k c" for c by (simp add: child_of_def)
    then have nodesc: "\<not> descendant ?nd k x" for x
      unfolding descendant_def by (metis tranclpD)
    have "subtree_props t k = Some (Inr ([], Some (leaf_risk ?nd k, [k])))"
      using exists True rn cpn by (simp add: subtree_props_def compute_error_rate_def leaf_risk_def)
    moreover have "set [k] = {x \<in> set (leaf_inds t). x = k \<or> descendant ?nd k x}"
      using True nodesc by auto
    ultimately show ?thesis by (intro exI [of _ "leaf_risk ?nd k"] exI [of _ "[k]"]) simp
  next
    case False
    with leaves rn have "\<not> (left rn = None \<and> right rn = None)" by auto
    with okn obtain l r where lr: "left rn = Some l" "right rn = Some r" "l \<noteq> r" "k < l" "k < r"
      by (cases "left rn"; cases "right rn") (auto simp: node_ok_def)
    have ch: "children ?nd k = [l, r]" using rn lr by (simp add: children_def)
    have pre: "\<forall>x \<in> set [] \<union> set [l, r]. k < x \<and>
        (\<exists>m p. map_of ?nd x = Some m \<and> parent m = Some p \<and> (p = k \<or> p \<in> set []))"
      using cl rn lr by auto
    have "distinct ([] @ [l, r])" using lr by simp
    from collect_loop_total [OF ok cl this pre] cp
    obtain new where new: "distinct new"
      "set new = set [l, r] \<union> {d. \<exists>c \<in> set [l, r]. descendant ?nd c d}"
      and pl: "props_loop ?nd (map Some [l, r]) 0 []
                = Some (Inr (0 + sum_list (map (leaf_risk ?nd) (filter (is_leaf ?nd) new)),
                             [] @ filter (is_leaf ?nd) new))"
      by auto
    have co: "child_of ?nd k c \<longleftrightarrow> c \<in> set [l, r]" for c
      using children_child_of [OF ok, of c k] ch by simp
    have "descendant ?nd k d \<longleftrightarrow> d \<in> set [l, r] \<or> (\<exists>c \<in> set [l, r]. descendant ?nd c d)" for d
      unfolding descendant_step [of ?nd k d] co by blast
    then have desc: "set new = {d. descendant ?nd k d}"
      unfolding new(2) by blast
    let ?ls = "filter (is_leaf ?nd) new"
    have run: "subtree_props t k = Some (Inr ([], Some (sum_list (map (leaf_risk ?nd) ?ls), ?ls)))"
      using exists False rn lr pl by (simp add: subtree_props_def)
    have "set ?ls = {x \<in> set (leaf_inds t). x = k \<or> descendant ?nd k x}"
      using False by (auto simp: desc leaf_iff)
    with run new(1) False show ?thesis
      by (intro exI [of _ "sum_list (map (leaf_risk ?nd) ?ls)"] exI [of _ ?ls]) simp
  qed
qed

lemma ex_five_cp: "has_class_probs ex_five"
  by (simp add: has_class_probs_def ex_five_def ex_node_def Node_def)

theorem C8_subtree_props_witness:
  "tree_inv ex_five \<and> tree_closed ex_five \<and> has_class_probs ex_five \<and>
   subtree_props ex_five 1 = Some (Inr ([], Some (1/8, [3, 4]))) \<and>
   subtree_props ex_five 2 = Some (Inr ([], Some (0, [2]))) \<and>
   (\<exists>risk ls. subtree_props ex_five 1 = Some (Inr ([], Some (risk, ls))) \<and>
      set ls = {x \<in> set (leaf_inds ex_five). x = 1 \<or> descendant (node_dict ex_five) 1 x} \<and>
      risk = sum_list (map (leaf_risk (node_dict ex_five)) ls))"
proof -
  have e: "1 \<in> set (keys (node_dict ex_five))" by (simp add: ex_five_def keys_def)
  have r1: "subtree_props ex_five 1 = Some (Inr ([], Some (1/8, [3, 4])))"
    by (simp add: subtree_props_def props_loop.simps ex_five_def keys_def Node_def ex_node_def
        compute_error_rate_def list_max_def)
  have r2: "subtree_props ex_five 2 = Some (Inr ([], Some (0, [2])))"
    by (simp add: subtree_props_def props_loop.simps ex_five_def keys_def Node_def ex_node_def
        compute_error_rate_def list_max_def)
  from C8_subtree_props [OF ex_five_inv ex_five_closed ex_five_cp e] r1 r2
    ex_five_inv ex_five_closed ex_five_cp
  show ?thesis by blast
qed

subsection \<open>Grown and pruned trees are well formed\<close>

lemma tree_closed_map:
  assumes "distinct (keys (node_dict t))"
    and "\<And>j n c. map_of (node_dict t) j = Some n \<Longrightarrow> left n = Some c \<or> right n = Some c \<Longrightarrow>
        \<exists>m. map_of (node_dict t) c = Some m \<and> parent m = Some j"
  shows "tree_closed t"
  unfolding tree_closed_alt [OF assms(1)] using assms(2) by blast

lemma split_one_closed:
  assumes inv: "tree_inv u" and kb: "keys_below mk u" and i: "i \<in> set (leaf_inds u)"
    and lc: "left lc = None" "right lc = None" "parent lc = Some i"
    and rc: "left rc = None" "right rc = None" "parent rc = Some i"
    and closed: "tree_closed u"
  shows "tree_closed (split_one u i mk lc rc)"
proof -
  let ?m = "map_of (node_dict u)"
  let ?u' = "split_one u i mk lc rc"
  from inv have dk: "distinct (keys (node_dict u))" unfolding tree_inv_alt by auto
  from closed have cl: "\<And>j n c. ?m j = Some n \<Longrightarrow> left n = Some c \<or> right n = Some c \<Longrightarrow>
        \<exists>m. ?m c = Some m \<and> parent m = Some j"
    unfolding tree_closed_alt [OF dk] by blast
  from tree_inv_leaf_key [OF inv i] obtain leaf where leaf: "?m i = Some leaf" ..
  have below: "\<And>k n. ?m k = Some n \<Longrightarrow> k \<le> mk"
    using kb keys_map_of [of _ "node_dict u"] unfolding keys_below_def by blast
  have m': "map_of (node_dict ?u') = (?m(i \<mapsto> set_children (mk + 1) (mk + 2) leaf))(mk + 1 \<mapsto> lc, mk + 2 \<mapsto> rc)"
    unfolding split_one_def using leaf by (simp add: map_of_split)
  from split_one_inv [OF inv kb i lc(1,2) rc(1,2)] have dk': "distinct (keys (node_dict ?u'))"
    unfolding tree_inv_alt by auto
  show ?thesis
  proof (rule tree_closed_map [OF dk'])
    fix j n c
    assume n: "map_of (node_dict ?u') j = Some n" and c: "left n = Some c \<or> right n = Some c"
    from n have n': "((?m(i \<mapsto> set_children (mk + 1) (mk + 2) leaf))(mk + 1 \<mapsto> lc, mk + 2 \<mapsto> rc)) j = Some n"
      by (simp only: m')
    then consider "j = mk + 2" "n = rc" | "j = mk + 1" "n = lc"
      | "j = i" "n = set_children (mk + 1) (mk + 2) leaf" | "j \<noteq> i" "j \<noteq> mk + 1" "j \<noteq> mk + 2" "?m j = Some n"
      by (cases "j = mk + 2"; cases "j = mk + 1"; cases "j = i") auto
    then show "\<exists>m. map_of (node_dict ?u') c = Some m \<and> parent m = Some j"
    proof cases
      case 1 with c rc show ?thesis by simp
    next
      case 2 with c lc show ?thesis by simp
    next
      case 3
      with c have "c = mk + 1 \<or> c = mk + 2" by (auto simp: set_children_def)
      with 3 lc rc show ?thesis unfolding m' by auto
    next
      case 4
      from cl [OF 4(4) c] obtain mc where mc: "?m c = Some mc" "parent mc = Some j" by blast
      from below [OF mc(1)] have "c \<noteq> mk + 1" "c \<noteq> mk + 2" by auto
      with mc leaf show ?thesis unfolding m' by (cases "c = i") (auto simp: set_children_def)
    qed
  qed
qed

lemma remove_subtree_closed:
  assumes inv: "tree_inv t" and closed: "tree_closed t"
    and run: "remove_subtree t k = Some (Inr (t', out))"
  shows "tree_closed t'"
proof (cases "k \<notin> set (keys (node_dict t)) \<or> k \<in> set (leaf_inds t)")
  case True
  with run have "t' = t" by (auto simp: remove_subtree_def split: if_splits)
  with closed show ?thesis by simp
next
  case False
  then have kk: "k \<in> set (keys (node_dict t))" and kl: "k \<notin> set (leaf_inds t)" by auto
  let ?m = "map_of (node_dict t)"
  from inv have dk: "distinct (keys (node_dict t))" unfolding tree_inv_alt by auto
  from closed have cl: "\<And>j n c. ?m j = Some n \<Longrightarrow> left n = Some c \<or> right n = Some c \<Longrightarrow>
        \<exists>m. ?m c = Some m \<and> parent m = Some j"
    unfolding tree_closed_alt [OF dk] by blast
  from remove_subtree_result [OF inv closed kk kl] run obtain res where
    desc: "set res = {d. descendant (node_dict t) k d}" and nres: "k \<notin> set res"
    and t': "t' = t\<lparr>node_dict := AList.map_entry k clear_children
                                    (filter (\<lambda>(j, x). j \<notin> set res) (node_dict t)),
                     leaf_inds := filter (\<lambda>j. j \<notin> set res) (leaf_inds t) @ [k]\<rparr>"
    by auto
  from remove_subtree_inv [OF inv run] have dk': "distinct (keys (node_dict t'))"
    unfolding tree_inv_alt by auto
  have m': "map_of (node_dict t') j =
      (if j \<in> set res then None else if j = k then map_option clear_children (?m k) else ?m j)" for j
  proof -
    have "map_of (filter (\<lambda>(j, x). j \<notin> set res) (node_dict t)) j = (if j \<in> set res then None else ?m j)" for j
      by (induction "node_dict t" rule: list.induct) (auto simp: map_of_filter_keep map_of_eq_None_iff image_iff)
    then show ?thesis unfolding t' by (auto simp: map_of_map_entry split: option.splits)
  qed
  show ?thesis
  proof (rule tree_closed_map [OF dk'])
    fix j n c
    assume n: "map_of (node_dict t') j = Some n" and c: "left n = Some c \<or> right n = Some c"
    from n have jres: "j \<notin> set res" by (auto simp: m' split: if_splits)
    have jk: "j \<noteq> k"
    proof
      assume "j = k"
      with n jres have "\<exists>x. n = clear_children x" by (auto simp: m')
      with c show False by (auto simp: clear_children_def)
    qed
    with n jres have mj: "?m j = Some n" by (simp add: m')
    from cl [OF mj c] obtain mc where mc: "?m c = Some mc" "parent mc = Some j" by blast
    have cres: "c \<notin> set res"
    proof
      assume "c \<in> set res"
      then have "descendant (node_dict t) k c" by (simp add: desc)
      then obtain p where p: "child_of (node_dict t) p c" "p = k \<or> descendant (node_dict t) k p"
        unfolding descendant_def by (metis tranclp.cases)
      from p(1) cl have "\<exists>m. ?m c = Some m \<and> parent m = Some p" unfolding child_of_def by blast
      with mc have "p = j" by simp
      with p(2) jk jres desc show False by auto
    qed
    with mc show "\<exists>m. map_of (node_dict t') c = Some m \<and> parent m = Some j"
      by (auto simp: m' clear_children_def)
  qed
qed

lemma consistent_closed: "consistent t \<Longrightarrow> tree_inv t \<and> tree_closed t"
proof (induction rule: consistent.induct)
  case (init d ls t)
  from Tree_init_shape [OF init] obtain rs where
    "t = \<lparr>node_dict = [(0, Node d ls (length (np_unique ls) = 1) 1
                                   (class_priors (np_unique ls) ls) rs None)],
                    leaf_inds = [0], symbols = np_unique ls\<rparr>" ..
  then have "tree_closed t" by (simp add: tree_closed_def Node_def)
  with Tree_init_inv [OF init] show ?case by simp
next
  case (fit t sp t')
  have "tree_inv t' \<and> tree_closed t' \<and> check_full_stopped t' = Inr True"
  proof (rule fit_full_tree_rule [where P = tree_closed, OF _ fit.hyps(2)])
    fix u i leaf lc rc mk
    assume "tree_closed u" "tree_inv u" "keys_below mk u" "i \<in> set (leaf_inds u)"
      "map_of (node_dict u) i = Some leaf" "\<not> is_stopped leaf"
      "new_children sp (symbols u) i leaf = Inr (lc, rc)"
    with new_children_shape [of sp "symbols u" i leaf lc rc]
    show "tree_closed (split_one u i mk lc rc)"
      by (intro split_one_closed) auto
  qed (use fit.IH in auto)
  then show ?case by simp
next
  case (remove t k t' out)
  with remove_subtree_inv remove_subtree_closed show ?case by blast
qed

subsection \<open>The pruning sequence of a tree with four internal nodes\<close>

lemmas ex_nine_defs = ex_nine_def ex_nine_1_def ex_nine_2_def ex_nine_3_def ex_nine_4_def
  grown_node_def Node_def keys_def

lemma ex_seed_init: "Tree_init ex_data [0, 1, 0, 1, 1, 0] = Inr ex_seed"
  by (simp add: Tree_init_def ex_seed_def ex_data_def root_rules_def ndim_def np_unique_def
      class_priors_def list_min_def list_max_def Let_def grown_node_def Node_def)

lemma ex_nine_grown: "fit_full_tree ex_grower ex_seed = Some (Inr ex_nine)"
  by (simp add: fit_full_tree_def fit_loop.simps check_full_stopped_def fit_pass_def
      split_leaf_def new_children_def ex_seed_def ex_nine_def ex_grower_def keys_def
      grown_node_def Node_def set_children_def np_unique_def Let_def ex_cut_at_def
      ex_left_rules_def ex_right_rules_def)


lemma ex_nine_cut: "cut_useless_leaves ex_nine = Inr (ex_nine, [SiblingsRemoved 0])"
  by (simp add: cut_useless_leaves_def leaf_siblings_def pair_useless_def compute_error_rate_def
      list_max_def ex_nine_defs)

lemma links_0: "link_values ex_nine ex_nine [0, 1, 2, 3, 4, 5, 6, 7, 8] =
    Some (Inr [Finite (1/8), Finite (11/100), Finite (3/25), Finite (1/10),
               Infinity, Infinity, Infinity, Infinity, Infinity])"
  by (simp add: node_link_def subtree_props_def props_loop.simps compute_error_rate_def
      list_max_def ex_nine_defs)

lemma links_1_code: "link_values ex_nine ex_nine_1 [0, 1, 2, 3, 4, 5, 6] =
    Some (Inr [Finite (1/8), Finite (11/100), Finite (3/25), Infinity,
               Infinity, Infinity, Infinity])"
  by (simp add: node_link_def subtree_props_def props_loop.simps compute_error_rate_def
      list_max_def ex_nine_defs)

lemma links_1_claim: "link_values ex_nine_1 ex_nine_1 [0, 1, 2, 3, 4, 5, 6] =
    Some (Inr [Finite (19/120), Finite (39/200), Finite (3/25), Infinity,
               Infinity, Infinity, Infinity])"
  by (simp add: node_link_def subtree_props_def props_loop.simps compute_error_rate_def
      list_max_def ex_nine_defs)

lemma links_2: "link_values ex_nine ex_nine_2 [0, 1, 2, 5, 6] =
    Some (Inr [Finite (1/8), Infinity, Finite (3/25), Infinity, Infinity])"
  by (simp add: node_link_def subtree_props_def props_loop.simps compute_error_rate_def
      list_max_def ex_nine_defs)

lemma links_3: "link_values ex_nine ex_nine_3 [0, 1, 2] =
    Some (Inr [Finite (1/8), Infinity, Infinity])"
  by (simp add: node_link_def subtree_props_def props_loop.simps compute_error_rate_def
      list_max_def ex_nine_defs)

lemma rm_0: "remove_subtree ex_nine 3 = Some (Inr (ex_nine_1, []))"
  by (simp add: remove_subtree_def collect_loop.simps clear_children_def AList.delete_eq ex_nine_defs)

lemma rm_1: "remove_subtree ex_nine_1 1 = Some (Inr (ex_nine_2, []))"
  by (simp add: remove_subtree_def collect_loop.simps clear_children_def AList.delete_eq ex_nine_defs)

lemma rm_2: "remove_subtree ex_nine_2 2 = Some (Inr (ex_nine_3, []))"
  by (simp add: remove_subtree_def collect_loop.simps clear_children_def AList.delete_eq ex_nine_defs)

lemma rm_3: "remove_subtree ex_nine_3 0 = Some (Inr (ex_nine_4, []))"
  by (simp add: remove_subtree_def collect_loop.simps clear_children_def AList.delete_eq ex_nine_defs)

lemma ex_nine_keys:
  "keys (node_dict ex_nine) = [0, 1, 2, 3, 4, 5, 6, 7, 8]"
  "keys (node_dict ex_nine_1) = [0, 1, 2, 3, 4, 5, 6]"
  "keys (node_dict ex_nine_2) = [0, 1, 2, 5, 6]"
  "keys (node_dict ex_nine_3) = [0, 1, 2]"
  "length (node_dict ex_nine) = 9" "length (node_dict ex_nine_1) = 7"
  "length (node_dict ex_nine_2) = 5" "length (node_dict ex_nine_3) = 3"
  "length (node_dict ex_nine_4) = 1"
  by (simp_all add: ex_nine_defs)

lemma ex_nine_seq:
  "cost_complexity_seq ex_nine =
     Some (Inr (ex_nine, [ex_nine, ex_nine_1, ex_nine_2, ex_nine_3, ex_nine_4], [SiblingsRemoved 0]))"
  by (simp add: cost_complexity_seq_def ex_nine_cut seq_loop.simps ex_nine_keys
      links_0 links_1_code links_2 links_3 rm_0 rm_1 rm_2 rm_3 weakest_link_def
      del: link_values.simps)

lemma ex_nine_wf: "tree_inv ex_nine \<and> tree_closed ex_nine \<and> has_class_probs ex_nine"
  by (simp add: tree_inv_def node_ok_def tree_closed_def has_class_probs_def childless_def ex_nine_defs)

text \<open>
  C1, on the grown tree \<open>ex_nine\<close>: the sequence that \<open>cost_complexity_seq\<close> returns; the
  link strengths that the code computes for the second tree \<open>ex_nine_1\<close> come from
  \<open>subtree_props\<close> of the unpruned tree and make node 1 the weakest link, which the code
  collapses; computed over \<open>ex_nine_1\<close> itself, as the claim has it, the weakest link is
  node 2. No two link strengths are equal, so the order of the dictionary plays no role.
\<close>

theorem C1_links_from_uncollapsed_tree:
  "Tree_init ex_data [0, 1, 0, 1, 1, 0] = Inr ex_seed \<and>
   fit_full_tree ex_grower ex_seed = Some (Inr ex_nine) \<and>
   cost_complexity_seq ex_nine =
     Some (Inr (ex_nine, [ex_nine, ex_nine_1, ex_nine_2, ex_nine_3, ex_nine_4], [SiblingsRemoved 0])) \<and>
   link_values ex_nine ex_nine_1 (keys (node_dict ex_nine_1)) =
     Some (Inr [Finite (1/8), Finite (11/100), Finite (3/25), Infinity, Infinity, Infinity, Infinity]) \<and>
   weakest_link ex_nine_1
     [Finite (1/8), Finite (11/100), Finite (3/25), Infinity, Infinity, Infinity, Infinity] = 1 \<and>
   remove_subtree ex_nine_1 1 = Some (Inr (ex_nine_2, [])) \<and>
   link_values ex_nine_1 ex_nine_1 (keys (node_dict ex_nine_1)) =
     Some (Inr [Finite (19/120), Finite (39/200), Finite (3/25), Infinity, Infinity, Infinity, Infinity]) \<and>
   weakest_link ex_nine_1
     [Finite (19/120), Finite (39/200), Finite (3/25), Infinity, Infinity, Infinity, Infinity] = 2"
  by (simp add: ex_seed_init ex_nine_grown ex_nine_seq ex_nine_keys links_1_code links_1_claim rm_1
      weakest_link_def del: link_values.simps)

subsection \<open>A pair of leaves that gains nothing\<close>

lemma ex_flat_fit: "fit_full_tree ex_flat ex_two = Some (Inr ex_flat_grown)"
  by (simp add: fit_full_tree_def fit_loop.simps check_full_stopped_def fit_pass_def
      split_leaf_def new_children_def ex_two_def ex_flat_grown_def ex_flat_def keys_def
      ex_flat_root_def ex_flat_left_def ex_flat_right_def
      Node_def set_children_def np_unique_def Let_def)

lemma ex_flat_rates:
  "compute_error_rate (ex_flat_root\<lparr>left := Some 1, right := Some 2\<rparr>) = Inr (1/2) \<and>
   compute_error_rate ex_flat_left = Inr (1/2) \<and>
   compute_error_rate ex_flat_right = Inr (1/2) \<and>
   weighted_average ex_flat_left ex_flat_right = 1/2"
  by (simp add: compute_error_rate_def weighted_average_def list_max_def
      ex_flat_root_def ex_flat_left_def ex_flat_right_def Node_def)

lemma ex_flat_kept:
  "leaf_siblings ex_flat_grown = Inr [(1, 2)] \<and>
   pair_useless (node_dict ex_flat_grown) (1, 2) = Inr False \<and>
   cut_useless_leaves ex_flat_grown = Inr (ex_flat_grown, [SiblingsRemoved 0])"
  by (simp add: leaf_siblings_def cut_useless_leaves_def ex_flat_grown_def Node_def
      ex_flat_root_def ex_flat_left_def ex_flat_right_def
      compute_error_rate_def list_max_def pair_useless_def keys_def)

lemma ex_flat_collapse:
  "total_misclass_rate ex_flat_grown = Inr (1/2) \<and>
   remove_subtree ex_flat_grown 0 = Some (Inr (ex_flat_cut, [])) \<and>
   total_misclass_rate ex_flat_cut = Inr (1/2)"
  by (simp add: total_misclass_rate_def remove_subtree_def collect_loop.simps
      ex_flat_grown_def ex_flat_cut_def ex_flat_root_def ex_flat_left_def ex_flat_right_def
      keys_def Node_def clear_children_def AList.delete_eq compute_error_rate_def list_max_def)

text \<open>
  C4 fails in the code. The tree built from the samples 1, 2 with the labels 0, 1 and grown
  with \<open>ex_flat\<close> has the root 0 and the sibling leaves 1 and 2; the three nodes have the
  error rate one half and the leaves the reach probability one half each. The error rate
  of the parent equals the reach-weighted average of the error rates of its children
  (and their plain average), so the claim has the pair removed and a count of 2 reported.
  The test of \<open>cut_useless_leaves\<close> compares one half with
  \<open>(1/2 * 1/2 + 1/2 * 1/2) / 2 = 1/4\<close>: it is false, nothing is removed and the count
  reported is 0. Eliminating the two leaves would not increase the error rate: the total
  misclassification rate is one half with them and one half with the root as only leaf.
\<close>

theorem C4_useless_pair_kept:
  "Tree_init (NDArray [2] [1, 2]) [0, 1] = Inr ex_two \<and>
   fit_full_tree ex_flat ex_two = Some (Inr ex_flat_grown) \<and>
   leaf_siblings ex_flat_grown = Inr [(1, 2)] \<and>
   compute_error_rate (ex_flat_root\<lparr>left := Some 1, right := Some 2\<rparr>) = Inr (1/2) \<and>
   compute_error_rate ex_flat_left = Inr (1/2) \<and>
   compute_error_rate ex_flat_right = Inr (1/2) \<and>
   weighted_average ex_flat_left ex_flat_right = 1/2 \<and>
   pair_useless (node_dict ex_flat_grown) (1, 2) = Inr False \<and>
   cut_useless_leaves ex_flat_grown = Inr (ex_flat_grown, [SiblingsRemoved 0]) \<and>
   total_misclass_rate ex_flat_grown = Inr (1/2) \<and>
   remove_subtree ex_flat_grown 0 = Some (Inr (ex_flat_cut, [])) \<and>
   total_misclass_rate ex_flat_cut = Inr (1/2)"
  using ex_two_init ex_flat_fit ex_flat_rates ex_flat_kept ex_flat_collapse by simp

end
